theory Spec2Isabelle
  imports Main "HOL-Library.Word" "HOL-Library.Monad_Syntax"
begin

section \<open>The memory of queue.c\<close>

text \<open>
  The queue of \<^verbatim>\<open>queue.c\<close> is a doubly linked list of heap nodes, each owning a heap
  copy of a C string. Pointers are \<open>addr option\<close> (\<open>None\<close> is \<^verbatim>\<open>NULL\<close>). The memory is
  split by the type of the object stored: queue headers, list elements and the byte
  blocks of the string payloads. A cell that is not allocated is \<open>None\<close> in its map, so
  that a read or write through a dangling pointer is visible as a fault.
\<close>

type_synonym addr = nat
type_synonym size_t = "64 word"
type_synonym buffer = "nat \<Rightarrow> char"

abbreviation NUL :: char where
  "NUL \<equiv> CHR 0x00"

text \<open>
  \<^verbatim>\<open>list_ele_t\<close>: the fields \<^verbatim>\<open>value\<close>, \<^verbatim>\<open>next\<close>, \<^verbatim>\<open>prev\<close> that \<^verbatim>\<open>queue.c\<close> reads and
  writes (the names carry a prefix because \<open>value\<close> and \<open>next\<close> are keywords here).
\<close>

record list_ele_t =
  e_value :: "addr option"
  e_next :: "addr option"
  e_prev :: "addr option"

text \<open>
  Modelled from the spec: the header \<^verbatim>\<open>queue.h\<close> that declares \<^verbatim>\<open>queue_t\<close> is not among
  the sources. \<^verbatim>\<open>queue.c\<close> uses the fields \<^verbatim>\<open>head\<close>, \<^verbatim>\<open>tail\<close> and \<^verbatim>\<open>size\<close>; the spec describes
  the last one as a non-negative element count with no capacity limit, hence \<open>nat\<close>.
\<close>

record queue_t =
  q_head :: "addr option"
  q_tail :: "addr option"
  q_size :: nat

record mem =
  queues :: "addr \<rightharpoonup> queue_t"
  eles :: "addr \<rightharpoonup> list_ele_t"
  strs :: "addr \<rightharpoonup> string"

section \<open>The C library as far as queue.c uses it\<close>

text \<open>
  A \<open>string\<close> stands for the bytes found at a \<^verbatim>\<open>char *\<close>; the C string there is what
  precedes the first \<open>NUL\<close>.
\<close>

definition c_str :: "string \<Rightarrow> string" where
  "c_str s = takeWhile (\<lambda>c. c \<noteq> NUL) s"

definition strlen :: "string \<Rightarrow> nat" where
  "strlen s = length (c_str s)"

text \<open>
  \<^verbatim>\<open>malloc\<close> either fails or returns a block with unspecified contents. Its outcome is
  chosen by the environment and passed in: \<open>None\<close> for failure, otherwise the address
  and the garbage the block holds.
\<close>

type_synonym ele_alloc = "(addr \<times> list_ele_t) option"
type_synonym bytes_alloc = "(addr \<times> buffer) option"
type_synonym queue_alloc = "(addr \<times> queue_t) option"

definition malloc_queue :: "queue_alloc \<Rightarrow> mem \<Rightarrow> addr option \<times> mem" where
  "malloc_queue outcome m =
     (case outcome of
        None \<Rightarrow> (None, m)
      | Some (a, junk) \<Rightarrow> (Some a, m\<lparr>queues := (queues m)(a \<mapsto> junk)\<rparr>))"

definition malloc_ele :: "ele_alloc \<Rightarrow> mem \<Rightarrow> addr option \<times> mem" where
  "malloc_ele outcome m =
     (case outcome of
        None \<Rightarrow> (None, m)
      | Some (a, junk) \<Rightarrow> (Some a, m\<lparr>eles := (eles m)(a \<mapsto> junk)\<rparr>))"

definition malloc_bytes :: "bytes_alloc \<Rightarrow> nat \<Rightarrow> mem \<Rightarrow> addr option \<times> mem" where
  "malloc_bytes outcome n m =
     (case outcome of
        None \<Rightarrow> (None, m)
      | Some (a, junk) \<Rightarrow> (Some a, m\<lparr>strs := (strs m)(a \<mapsto> map junk [0..<n])\<rparr>))"

text \<open>\<^verbatim>\<open>free(p)\<close>: nothing for \<^verbatim>\<open>NULL\<close>, a fault for a block that is not allocated.\<close>

definition free_ele :: "addr option \<Rightarrow> mem \<Rightarrow> mem option" where
  "free_ele p m =
     (case p of
        None \<Rightarrow> Some m
      | Some a \<Rightarrow> if eles m a = None then None else Some (m\<lparr>eles := (eles m)(a := None)\<rparr>))"

definition free_bytes :: "addr option \<Rightarrow> mem \<Rightarrow> mem option" where
  "free_bytes p m =
     (case p of
        None \<Rightarrow> Some m
      | Some a \<Rightarrow> if strs m a = None then None else Some (m\<lparr>strs := (strs m)(a := None)\<rparr>))"

text \<open>
  \<^verbatim>\<open>strcpy(dst, s)\<close> writes the characters of \<open>s\<close> and a terminator into the block at
  \<open>dst\<close>; a block that is too short is an overflow, hence a fault.
\<close>

definition strcpy :: "addr \<Rightarrow> string \<Rightarrow> mem \<Rightarrow> mem option" where
  "strcpy dst s m =
     (case strs m dst of
        None \<Rightarrow> None
      | Some blk \<Rightarrow>
          if length blk < strlen s + 1 then None
          else Some (m\<lparr>strs := (strs m)(dst \<mapsto> c_str s @ NUL # drop (strlen s + 1) blk)\<rparr>))"

text \<open>
  \<^verbatim>\<open>strncpy(dst, src, n)\<close> writes exactly \<open>n\<close> bytes at \<open>dst\<close>: the characters of the C
  string at \<open>src\<close>, then \<open>NUL\<close>s (\<open>strncpy_bytes\<close>). The destination is the caller's
  memory from \<open>dst\<close> on, as a function of the offset, together with the number \<open>cap\<close> of
  bytes that the object at \<open>dst\<close> has. Writing more bytes than the object has is an
  overrun: the call does not return, which is a fault. So is reading a source block that
  has no terminator within its bounds.
\<close>

definition strncpy_bytes :: "buffer \<Rightarrow> string \<Rightarrow> nat \<Rightarrow> buffer" where
  "strncpy_bytes dst blk n =
     (\<lambda>i. if i < n then (if i < strlen blk then blk ! i else NUL) else dst i)"

definition strncpy :: "buffer \<Rightarrow> nat \<Rightarrow> string \<Rightarrow> nat \<Rightarrow> buffer option" where
  "strncpy dst cap blk n =
     (if NUL \<notin> set blk \<and> length blk < n then None
      else if cap < n then None
      else Some (strncpy_bytes dst blk n))"

text \<open>\<^verbatim>\<open>dst[i] = c\<close> for an object of \<open>cap\<close> bytes at \<open>dst\<close>: a fault outside the object.\<close>

definition store_byte :: "buffer \<Rightarrow> nat \<Rightarrow> nat \<Rightarrow> char \<Rightarrow> buffer option" where
  "store_byte dst cap i c = (if i < cap then Some (dst(i := c)) else None)"

section \<open>Field access\<close>

definition upd_ele :: "addr \<Rightarrow> (list_ele_t \<Rightarrow> list_ele_t) \<Rightarrow> mem \<Rightarrow> mem option" where
  "upd_ele a f m =
     (case eles m a of
        None \<Rightarrow> None
      | Some e \<Rightarrow> Some (m\<lparr>eles := (eles m)(a \<mapsto> f e)\<rparr>))"

definition upd_queue :: "addr \<Rightarrow> (queue_t \<Rightarrow> queue_t) \<Rightarrow> mem \<Rightarrow> mem option" where
  "upd_queue a f m =
     (case queues m a of
        None \<Rightarrow> None
      | Some q \<Rightarrow> Some (m\<lparr>queues := (queues m)(a \<mapsto> f q)\<rparr>))"

section \<open>The operations of queue.c\<close>

text \<open>
  Every operation returns \<open>None\<close> when the C code would dereference a pointer that
  is \<^verbatim>\<open>NULL\<close> or dangling, or write outside the caller's buffer; otherwise its C result
  and the memory it leaves.
\<close>

definition queue_new :: "queue_alloc \<Rightarrow> mem \<Rightarrow> (addr option \<times> mem) option" where
  "queue_new qalloc m =
     (case malloc_queue qalloc m of
        (None, m1) \<Rightarrow> Some (None, m1)
      | (Some q, m1) \<Rightarrow> do {
          m2 \<leftarrow> upd_queue q (\<lambda>r. r\<lparr>q_head := None\<rparr>) m1;
          m3 \<leftarrow> upd_queue q (\<lambda>r. r\<lparr>q_tail := None\<rparr>) m2;
          m4 \<leftarrow> upd_queue q (\<lambda>r. r\<lparr>q_size := 0\<rparr>) m3;
          Some (Some q, m4)
        })"

definition queue_insert_head ::
  "ele_alloc \<Rightarrow> bytes_alloc \<Rightarrow> addr option \<Rightarrow> string \<Rightarrow> mem \<Rightarrow> (bool \<times> mem) option" where
  "queue_insert_head ealloc salloc q s m =
     (case q of
        None \<Rightarrow> Some (False, m)
      | Some qa \<Rightarrow>
         (case malloc_ele ealloc m of
            (None, m1) \<Rightarrow> Some (False, m1)
          | (Some newh, m1) \<Rightarrow>
             (case malloc_bytes salloc (strlen s + 1) m1 of (v, m2) \<Rightarrow> do {
                m3 \<leftarrow> upd_ele newh (\<lambda>e. e\<lparr>e_value := v\<rparr>) m2;
                (case v of
                   None \<Rightarrow> do {
                     m4 \<leftarrow> free_ele (Some newh) m3;
                     Some (False, m4)
                   }
                 | Some dst \<Rightarrow> do {
                     m4 \<leftarrow> strcpy dst s m3;
                     qs \<leftarrow> queues m4 qa;
                     m5 \<leftarrow> upd_ele newh (\<lambda>e. e\<lparr>e_next := q_head qs\<rparr>) m4;
                     m6 \<leftarrow> upd_ele newh (\<lambda>e. e\<lparr>e_prev := None\<rparr>) m5;
                     m7 \<leftarrow> (case q_head qs of
                             Some h \<Rightarrow> upd_ele h (\<lambda>e. e\<lparr>e_prev := Some newh\<rparr>) m6
                           | None \<Rightarrow> upd_queue qa (\<lambda>r. r\<lparr>q_tail := Some newh\<rparr>) m6);
                     m8 \<leftarrow> upd_queue qa (\<lambda>r. r\<lparr>q_head := Some newh\<rparr>) m7;
                     m9 \<leftarrow> upd_queue qa (\<lambda>r. r\<lparr>q_size := q_size r + 1\<rparr>) m8;
                     Some (True, m9)
                   })
              })))"

definition queue_insert_tail ::
  "ele_alloc \<Rightarrow> bytes_alloc \<Rightarrow> addr option \<Rightarrow> string \<Rightarrow> mem \<Rightarrow> (bool \<times> mem) option" where
  "queue_insert_tail ealloc salloc q s m =
     (case q of
        None \<Rightarrow> Some (False, m)
      | Some qa \<Rightarrow>
         (case malloc_ele ealloc m of
            (None, m1) \<Rightarrow> Some (False, m1)
          | (Some newt, m1) \<Rightarrow>
             (case malloc_bytes salloc (strlen s + 1) m1 of
                (None, m2) \<Rightarrow> do {
                  m3 \<leftarrow> free_ele (Some newt) m2;
                  Some (False, m3)
                }
              | (Some news, m2) \<Rightarrow> do {
                  m3 \<leftarrow> strcpy news s m2;
                  m4 \<leftarrow> upd_ele newt (\<lambda>e. e\<lparr>e_value := Some news\<rparr>) m3;
                  qs \<leftarrow> queues m4 qa;
                  m5 \<leftarrow> upd_ele newt (\<lambda>e. e\<lparr>e_prev := q_tail qs\<rparr>) m4;
                  m6 \<leftarrow> upd_ele newt (\<lambda>e. e\<lparr>e_next := None\<rparr>) m5;
                  m7 \<leftarrow> (case q_tail qs of
                          Some t \<Rightarrow> upd_ele t (\<lambda>e. e\<lparr>e_next := Some newt\<rparr>) m6
                        | None \<Rightarrow> upd_queue qa (\<lambda>r. r\<lparr>q_head := Some newt\<rparr>) m6);
                  m8 \<leftarrow> upd_queue qa (\<lambda>r. r\<lparr>q_tail := Some newt\<rparr>) m7;
                  m9 \<leftarrow> upd_queue qa (\<lambda>r. r\<lparr>q_size := q_size r + 1\<rparr>) m8;
                  Some (True, m9)
                })))"

text \<open>
  \<^verbatim>\<open>bufsize - 1\<close> is computed in \<^verbatim>\<open>size_t\<close>, so it wraps around for \<^verbatim>\<open>bufsize = 0\<close>.
  The result carries the caller's buffer memory as the call leaves it. The buffer,
  like the string passed to an insertion, is the caller's own memory, apart from the
  queue's nodes and strings; the object at \<^verbatim>\<open>buf\<close> has \<^verbatim>\<open>bufsize\<close> bytes, as the
  function's documentation says (\<open>Size of the buffer buf points to\<close>). With a buffer
  and \<^verbatim>\<open>bufsize = 0\<close> the call of \<^verbatim>\<open>strncpy\<close> asks for \<open>2^64 - 1\<close> bytes, overruns the
  buffer and does not return.
\<close>

definition queue_remove_head ::
  "addr option \<Rightarrow> buffer option \<Rightarrow> size_t \<Rightarrow> mem \<Rightarrow> (bool \<times> buffer option \<times> mem) option" where
  "queue_remove_head q buf bufsize m =
     (case q of
        None \<Rightarrow> Some (False, buf, m)
      | Some qa \<Rightarrow> do {
          qs \<leftarrow> queues m qa;
          if q_size qs = 0 then Some (False, buf, m)
          else do {
            old_head \<leftarrow> q_head qs;
            oe \<leftarrow> eles m old_head;
            m1 \<leftarrow> upd_queue qa (\<lambda>r. r\<lparr>q_head := e_next oe\<rparr>) m;
            oe1 \<leftarrow> eles m1 old_head;
            buf1 \<leftarrow> (case (buf, e_value oe1) of
                      (Some b, Some v) \<Rightarrow> do {
                        blk \<leftarrow> strs m1 v;
                        b1 \<leftarrow> strncpy b (unat bufsize) blk (unat (bufsize - 1));
                        b2 \<leftarrow> store_byte b1 (unat bufsize) (unat (bufsize - 1)) NUL;
                        Some (Some b2)
                      }
                    | _ \<Rightarrow> Some buf);
            m2 \<leftarrow> free_bytes (e_value oe1) m1;
            m3 \<leftarrow> free_ele (Some old_head) m2;
            qs3 \<leftarrow> queues m3 qa;
            m4 \<leftarrow> (case q_head qs3 of
                    Some h \<Rightarrow> upd_ele h (\<lambda>e. e\<lparr>e_prev := None\<rparr>) m3
                  | None \<Rightarrow> Some m3);
            m5 \<leftarrow> upd_queue qa (\<lambda>r. r\<lparr>q_size := q_size r - 1\<rparr>) m4;
            qs5 \<leftarrow> queues m5 qa;
            m6 \<leftarrow> (case q_head qs5 of
                    None \<Rightarrow> upd_queue qa (\<lambda>r. r\<lparr>q_tail := None\<rparr>) m5
                  | Some h \<Rightarrow> Some m5);
            Some (True, buf1, m6)
          }
        })"

definition queue_size :: "addr option \<Rightarrow> mem \<Rightarrow> nat option" where
  "queue_size q m =
     (case q of
        None \<Rightarrow> Some 0
      | Some qa \<Rightarrow> do { qs \<leftarrow> queues m qa; Some (q_size qs) })"

text \<open>
  The loop of \<^verbatim>\<open>queue_reverse\<close>. It runs until \<^verbatim>\<open>current\<close> is \<^verbatim>\<open>NULL\<close>, which a cyclic
  chain never reaches: not returning is the value \<open>None\<close>, as a fault is.
\<close>

partial_function (option) reverse_loop :: "addr option \<Rightarrow> mem \<Rightarrow> mem option" where
  "reverse_loop current m =
     (case current of
        None \<Rightarrow> Some m
      | Some c \<Rightarrow>
         (case eles m c of
            None \<Rightarrow> None
          | Some e \<Rightarrow>
             (case upd_ele c (\<lambda>e. e\<lparr>e_next := e_prev e\<rparr>) m of
                None \<Rightarrow> None
              | Some m1 \<Rightarrow>
                 (case upd_ele c (\<lambda>e'. e'\<lparr>e_prev := e_next e\<rparr>) m1 of
                    None \<Rightarrow> None
                  | Some m2 \<Rightarrow> reverse_loop (e_next e) m2))))"

definition queue_reverse :: "addr option \<Rightarrow> mem \<Rightarrow> mem option" where
  "queue_reverse q m =
     (case q of
        None \<Rightarrow> Some m
      | Some qa \<Rightarrow> do {
          qs \<leftarrow> queues m qa;
          (case q_head qs of
             None \<Rightarrow> Some m
           | Some h \<Rightarrow> do {
               e \<leftarrow> eles m h;
               (case e_next e of
                  None \<Rightarrow> Some m
                | Some n \<Rightarrow> do {
                    m1 \<leftarrow> reverse_loop (q_head qs) m;
                    qs1 \<leftarrow> queues m1 qa;
                    m2 \<leftarrow> upd_queue qa (\<lambda>r. r\<lparr>q_tail := q_head qs1\<rparr>) m1;
                    upd_queue qa (\<lambda>r. r\<lparr>q_head := q_tail qs1\<rparr>) m2
                  })
             })
        })"

section \<open>The queue invariant\<close>

text \<open>
  The data model of the queue, stated over the memory. \<open>seg f h p ps r\<close>: following
  the pointer field \<open>f\<close> from \<open>p\<close> visits the allocated nodes \<open>ps\<close> in order and
  ends at \<open>r\<close>. \<open>walk h p n\<close> follows \<^verbatim>\<open>next\<close> exactly \<open>n\<close> times from \<open>p\<close> and
  returns the nodes visited when it then stands at \<^verbatim>\<open>NULL\<close>.
\<close>

fun seg :: "(list_ele_t \<Rightarrow> addr option) \<Rightarrow> (addr \<rightharpoonup> list_ele_t) \<Rightarrow> addr option \<Rightarrow> addr list \<Rightarrow> addr option \<Rightarrow> bool" where
  "seg f h p [] r = (p = r)"
| "seg f h p (a # as) r =
     (p = Some a \<and> (case h a of None \<Rightarrow> False | Some e \<Rightarrow> seg f h (f e) as r))"

fun walk :: "(addr \<rightharpoonup> list_ele_t) \<Rightarrow> addr option \<Rightarrow> nat \<Rightarrow> addr list option" where
  "walk h p 0 = (if p = None then Some [] else None)"
| "walk h p (Suc n) =
     (case p of
        None \<Rightarrow> None
      | Some a \<Rightarrow>
         (case h a of
            None \<Rightarrow> None
          | Some e \<Rightarrow> map_option ((#) a) (walk h (e_next e) n)))"

text \<open>The payload of a node: its \<^verbatim>\<open>value\<close> pointer, and the C string stored there.\<close>

definition payload_ptr :: "mem \<Rightarrow> addr \<Rightarrow> addr option" where
  "payload_ptr m a = (case eles m a of None \<Rightarrow> None | Some e \<Rightarrow> e_value e)"

definition payload_ok :: "mem \<Rightarrow> addr \<Rightarrow> bool" where
  "payload_ok m a =
     (case payload_ptr m a of
        None \<Rightarrow> False
      | Some v \<Rightarrow> (case strs m v of None \<Rightarrow> False | Some blk \<Rightarrow> NUL \<in> set blk))"

definition node_str :: "mem \<Rightarrow> addr \<Rightarrow> string" where
  "node_str m a =
     (case payload_ptr m a of
        None \<Rightarrow> []
      | Some v \<Rightarrow> (case strs m v of None \<Rightarrow> [] | Some blk \<Rightarrow> c_str blk))"

text \<open>
  The nodes of a queue are found by following \<^verbatim>\<open>next\<close> from \<^verbatim>\<open>head\<close> exactly
  \<^verbatim>\<open>size\<close> times. The invariant: that walk ends at \<^verbatim>\<open>NULL\<close>; following \<^verbatim>\<open>prev\<close> from
  \<^verbatim>\<open>tail\<close> visits the same nodes in the opposite order; no node occurs twice; every
  node owns an allocated, terminated payload, and no two nodes share one.
\<close>

definition queue_nodes :: "mem \<Rightarrow> addr \<Rightarrow> addr list option" where
  "queue_nodes m qa =
     (case queues m qa of
        None \<Rightarrow> None
      | Some qs \<Rightarrow> walk (eles m) (q_head qs) (q_size qs))"

definition queue_inv :: "mem \<Rightarrow> addr \<Rightarrow> bool" where
  "queue_inv m qa =
     (case queues m qa of
        None \<Rightarrow> False
      | Some qs \<Rightarrow>
         (case walk (eles m) (q_head qs) (q_size qs) of
            None \<Rightarrow> False
          | Some ps \<Rightarrow>
              seg e_prev (eles m) (q_tail qs) (rev ps) None \<and>
              distinct ps \<and>
              list_all (payload_ok m) ps \<and>
              distinct (map (payload_ptr m) ps)))"

definition queue_strings :: "mem \<Rightarrow> addr \<Rightarrow> string list" where
  "queue_strings m qa =
     (case queue_nodes m qa of None \<Rightarrow> [] | Some ps \<Rightarrow> map (node_str m) ps)"

text \<open>The same invariant with the list of nodes named.\<close>

definition dlist :: "mem \<Rightarrow> addr \<Rightarrow> addr list \<Rightarrow> bool" where
  "dlist m qa ps \<longleftrightarrow>
     (\<exists>qs. queues m qa = Some qs \<and> q_size qs = length ps \<and>
       seg e_next (eles m) (q_head qs) ps None \<and>
       seg e_prev (eles m) (q_tail qs) (rev ps) None \<and>
       distinct ps \<and> list_all (payload_ok m) ps \<and> distinct (map (payload_ptr m) ps))"

text \<open>A handle a caller may pass: \<^verbatim>\<open>NULL\<close>, or a pointer to a queue that satisfies the invariant.\<close>

definition handle_ok :: "mem \<Rightarrow> addr option \<Rightarrow> bool" where
  "handle_ok m q = (case q of None \<Rightarrow> True | Some qa \<Rightarrow> queue_inv m qa)"

text \<open>
  What a well-behaved \<^verbatim>\<open>malloc\<close> returns: memory that is not allocated already.
\<close>

definition allocs_fresh :: "ele_alloc \<Rightarrow> bytes_alloc \<Rightarrow> mem \<Rightarrow> bool" where
  "allocs_fresh ealloc salloc m =
     ((case ealloc of None \<Rightarrow> True | Some (a, junk) \<Rightarrow> eles m a = None) \<and>
      (case salloc of None \<Rightarrow> True | Some (v, junk) \<Rightarrow> strs m v = None))"

section \<open>Vocabulary for the effects of the operations\<close>

text \<open>What \<^verbatim>\<open>queue_reverse\<close> does to one node, and to the nodes \<open>ps\<close> of a memory.\<close>

definition swap_links :: "list_ele_t \<Rightarrow> list_ele_t" where
  "swap_links e = e\<lparr>e_next := e_prev e, e_prev := e_next e\<rparr>"

definition swap_all :: "addr list \<Rightarrow> (addr \<rightharpoonup> list_ele_t) \<Rightarrow> (addr \<rightharpoonup> list_ele_t)" where
  "swap_all ps h = (\<lambda>x. if x \<in> set ps then map_option swap_links (h x) else h x)"

text \<open>
  The caller's buffer after \<^verbatim>\<open>strncpy(buf, s, n); buf[n] = '\0'\<close>, and the C string
  found in a buffer of capacity \<open>cap\<close>.
\<close>

definition copy_out :: "buffer \<Rightarrow> string \<Rightarrow> nat \<Rightarrow> buffer" where
  "copy_out b s n = (\<lambda>i. if i < n then (if i < length s then s ! i else NUL) else b i)(n := NUL)"

definition buf_string :: "buffer \<Rightarrow> nat \<Rightarrow> string" where
  "buf_string b cap = c_str (map b [0..<cap])"

text \<open>
  A concrete memory: the queue at address 0 holds the single string \<open>''ab''\<close>; and a
  buffer filled with \<open>x\<close>.
\<close>

definition ex_mem :: mem where
  "ex_mem = \<lparr>queues = [0 \<mapsto> \<lparr>q_head = Some 1, q_tail = Some 1, q_size = 1\<rparr>],
     eles = [1 \<mapsto> \<lparr>e_value = Some 2, e_next = None, e_prev = None\<rparr>],
     strs = [2 \<mapsto> ''ab'' @ [NUL]]\<rparr>"

definition ex_buf :: buffer where
  "ex_buf = (\<lambda>i. CHR ''x'')"

text \<open>
  The structural properties a caller can observe: the count is zero exactly when
  \<^verbatim>\<open>head\<close> is \<^verbatim>\<open>NULL\<close>, exactly when \<^verbatim>\<open>tail\<close> is \<^verbatim>\<open>NULL\<close>; and for every node of the
  queue, \<^verbatim>\<open>next\<close> and \<^verbatim>\<open>prev\<close> are inverse to each other.
\<close>

definition structure_ok :: "mem \<Rightarrow> addr \<Rightarrow> bool" where
  "structure_ok m qa \<longleftrightarrow>
     (\<exists>qs ps. queues m qa = Some qs \<and> queue_nodes m qa = Some ps \<and>
        ((q_size qs = 0) = (q_head qs = None)) \<and>
        ((q_head qs = None) = (q_tail qs = None)) \<and>
        (\<forall>a\<in>set ps. \<forall>e b. eles m a = Some e \<and> e_next e = Some b \<longrightarrow>
           (\<exists>eb. eles m b = Some eb \<and> e_prev eb = Some a)) \<and>
        (\<forall>a\<in>set ps. \<forall>e b. eles m a = Some e \<and> e_prev e = Some b \<longrightarrow>
           (\<exists>eb. eles m b = Some eb \<and> e_next eb = Some a)))"

text \<open>
  What \<^verbatim>\<open>queue_reverse\<close> may change in the nodes: link fields only. No string block
  changes, no node appears or disappears, no \<^verbatim>\<open>value\<close> pointer changes.
\<close>

definition relinked :: "mem \<Rightarrow> mem \<Rightarrow> bool" where
  "relinked m m' \<longleftrightarrow>
     strs m' = strs m \<and>
     (\<forall>a. (eles m' a = None) = (eles m a = None)) \<and>
     (\<forall>a. map_option e_value (eles m' a) = map_option e_value (eles m a))"

section \<open>Sequences of calls\<close>

text \<open>
  \<open>tail_inserts\<close> inserts the given strings at the tail, one after the other, each with
  its own \<^verbatim>\<open>malloc\<close> outcomes. It returns the final memory when every \<^verbatim>\<open>malloc\<close>
  returned fresh memory and every insertion reported success.
\<close>

fun tail_inserts ::
  "addr option \<Rightarrow> (ele_alloc \<times> bytes_alloc \<times> string) list \<Rightarrow> mem \<Rightarrow> mem option" where
  "tail_inserts q [] m = Some m"
| "tail_inserts q ((ealloc, salloc, s) # rest) m =
     (if allocs_fresh ealloc salloc m then
        (case queue_insert_tail ealloc salloc q s m of
           Some (True, m') \<Rightarrow> tail_inserts q rest m'
         | _ \<Rightarrow> None)
      else None)"

text \<open>
  \<open>remove_all\<close> calls \<^verbatim>\<open>queue_remove_head\<close> once for each buffer (with its capacity) and
  collects the C strings found in the buffers afterwards; every call has to succeed.
\<close>

fun remove_all ::
  "addr option \<Rightarrow> (buffer \<times> size_t) list \<Rightarrow> mem \<Rightarrow> (string list \<times> mem) option" where
  "remove_all q [] m = Some ([], m)"
| "remove_all q ((b, n) # rest) m =
     (case queue_remove_head q (Some b) n m of
        Some (True, Some b', m') \<Rightarrow>
          (case remove_all q rest m' of
             Some (out, m'') \<Rightarrow> Some (buf_string b' (unat n) # out, m'')
           | None \<Rightarrow> None)
      | _ \<Rightarrow> None)"








section \<open>Concrete memories\<close>

text \<open>
  Garbage as \<^verbatim>\<open>malloc\<close> may hand it out, the empty memory, the memory right after
  \<^verbatim>\<open>queue_new\<close>, a queue holding \<open>''a''\<close> and \<open>''b''\<close>, and inputs for the sequences above.
\<close>

definition ex_junk :: list_ele_t where
  "ex_junk = \<lparr>e_value = Some 9, e_next = Some 9, e_prev = Some 9\<rparr>"

definition ex_qjunk :: queue_t where
  "ex_qjunk = \<lparr>q_head = Some 9, q_tail = Some 9, q_size = 9\<rparr>"

definition mem0 :: mem where
  "mem0 = \<lparr>queues = Map.empty, eles = Map.empty, strs = Map.empty\<rparr>"

definition ex_m0 :: mem where
  "ex_m0 = \<lparr>queues = [0 \<mapsto> \<lparr>q_head = None, q_tail = None, q_size = 0\<rparr>],
     eles = Map.empty, strs = Map.empty\<rparr>"

definition ex_mem2 :: mem where
  "ex_mem2 = \<lparr>queues = [0 \<mapsto> \<lparr>q_head = Some 1, q_tail = Some 2, q_size = 2\<rparr>],
     eles = [1 \<mapsto> \<lparr>e_value = Some 11, e_next = Some 2, e_prev = None\<rparr>,
             2 \<mapsto> \<lparr>e_value = Some 12, e_next = None, e_prev = Some 1\<rparr>],
     strs = [11 \<mapsto> ''a'' @ [NUL], 12 \<mapsto> ''b'' @ [NUL]]\<rparr>"

definition ex_items :: "(ele_alloc \<times> bytes_alloc \<times> string) list" where
  "ex_items = [(Some (1, ex_junk), Some (11, ex_buf), ''a''),
               (Some (2, ex_junk), Some (12, ex_buf), ''b''),
               (Some (3, ex_junk), Some (13, ex_buf), ''c'')]"

definition ex_bufs :: "(buffer \<times> size_t) list" where
  "ex_bufs = [(ex_buf, 8), (ex_buf, 8), (ex_buf, 8)]"


section \<open>Paths through the nodes\<close>

lemma walk_seg: "walk h p n = Some ps \<longleftrightarrow> seg e_next h p ps None \<and> length ps = n"
proof (induction n arbitrary: p ps)
  case 0
  then show ?case by (cases ps) auto
next
  case (Suc n)
  show ?case
  proof (cases ps)
    case Nil
    then show ?thesis by (simp split: option.splits)
  next
    case (Cons a as)
    show ?thesis
    proof (cases "p = Some a \<and> h a \<noteq> None")
      case True
      then obtain e where e: "h a = Some e" by auto
      with True Cons Suc.IH [of "e_next e" as] show ?thesis by auto
    next
      case False
      then show ?thesis using Cons by (auto split: option.splits)
    qed
  qed
qed

lemma seg_append: "seg f h p (xs @ ys) r \<longleftrightarrow> (\<exists>t. seg f h p xs t \<and> seg f h t ys r)"
  by (induction xs arbitrary: p) (auto split: option.splits)

lemma seg_appendI: "seg f h p xs t \<Longrightarrow> seg f h t ys r \<Longrightarrow> seg f h p (xs @ ys) r"
  unfolding seg_append by blast

lemma seg_cong:
  assumes "\<And>a. a \<in> set ps \<Longrightarrow> map_option f (h' a) = map_option g (h a)"
  shows "seg f h' p ps r = seg g h p ps r"
  using assms
proof (induction ps arbitrary: p)
  case Nil
  then show ?case by simp
next
  case (Cons a ps)
  have eq: "map_option f (h' a) = map_option g (h a)" using Cons.prems by simp
  have IH: "\<And>t. seg f h' t ps r = seg g h t ps r" using Cons by simp
  show ?case
  proof (cases "h a")
    case None
    with eq have "h' a = None" by simp
    with None show ?thesis by simp
  next
    case (Some e)
    with eq obtain e' where "h' a = Some e'" "f e' = g e" by (cases "h' a") auto
    with Some IH show ?thesis by simp
  qed
qed

lemma seg_frame:
  assumes "\<And>a. a \<in> set ps \<Longrightarrow> map_option f (h' a) = map_option f (h a)"
  shows "seg f h' p ps r = seg f h p ps r"
  using assms by (rule seg_cong)

lemma seg_dom: "seg f h p ps r \<Longrightarrow> a \<in> set ps \<Longrightarrow> h a \<noteq> None"
  by (induction ps arbitrary: p) (auto split: option.splits)

lemma seg_head: "seg f h p ps None \<Longrightarrow> p = (case ps of [] \<Rightarrow> None | a # _ \<Rightarrow> Some a)"
  by (cases ps) auto

lemma seg_last:
  "seg f h p (xs @ [a]) None \<Longrightarrow> \<exists>e. h a = Some e \<and> f e = None"
  by (auto simp: seg_append split: option.splits)

lemma dlist_walk:
  "dlist m qa ps \<longleftrightarrow>
     (\<exists>qs. queues m qa = Some qs \<and> walk (eles m) (q_head qs) (q_size qs) = Some ps \<and>
       seg e_prev (eles m) (q_tail qs) (rev ps) None \<and>
       distinct ps \<and> list_all (payload_ok m) ps \<and> distinct (map (payload_ptr m) ps))"
  unfolding dlist_def walk_seg by auto

lemma queue_inv_dlist: "queue_inv m qa \<longleftrightarrow> (\<exists>ps. dlist m qa ps)"
proof
  assume "queue_inv m qa"
  then obtain qs ps where "queues m qa = Some qs"
    "walk (eles m) (q_head qs) (q_size qs) = Some ps"
    "seg e_prev (eles m) (q_tail qs) (rev ps) None"
    "distinct ps" "list_all (payload_ok m) ps" "distinct (map (payload_ptr m) ps)"
    unfolding queue_inv_def by (simp split: option.splits)
  then have "dlist m qa ps" unfolding dlist_walk by simp
  then show "\<exists>ps. dlist m qa ps" ..
next
  assume "\<exists>ps. dlist m qa ps"
  then obtain ps where "dlist m qa ps" ..
  then show "queue_inv m qa" unfolding dlist_walk queue_inv_def by auto
qed

lemma dlist_nodes: "dlist m qa ps \<Longrightarrow> queue_nodes m qa = Some ps"
  by (auto simp: queue_nodes_def dlist_def walk_seg)

section \<open>C strings and buffers\<close>

lemma length_c_str [simp]: "length (c_str s) = strlen s"
  by (simp add: strlen_def)

lemma c_str_no_NUL: "NUL \<notin> set (c_str s)"
  unfolding c_str_def by (auto dest: set_takeWhileD)

lemma c_str_id: "NUL \<notin> set s \<Longrightarrow> c_str s = s"
  unfolding c_str_def by (induction s) auto

lemma c_str_cut: "NUL \<notin> set t \<Longrightarrow> c_str (t @ NUL # r) = t"
  unfolding c_str_def by (induction t) auto

lemma c_str_block [simp]: "c_str (c_str s @ NUL # r) = c_str s"
proof -
  have "\<And>x. x \<in> set (c_str s) \<Longrightarrow> x \<noteq> NUL"
    unfolding c_str_def by (auto dest: set_takeWhileD)
  then have "takeWhile (\<lambda>c. c \<noteq> NUL) (c_str s @ NUL # r) = c_str s @ takeWhile (\<lambda>c. c \<noteq> NUL) (NUL # r)"
    by (rule takeWhile_append2)
  then show ?thesis by (simp add: c_str_def)
qed

lemma c_str_nth: "i < strlen blk \<Longrightarrow> c_str blk ! i = blk ! i"
  unfolding strlen_def c_str_def by (rule takeWhile_nth) simp

lemma strncpy_in_bounds:
  assumes "NUL \<in> set blk" and "n < cap"
  shows "strncpy b cap blk n = Some (strncpy_bytes b blk n)"
  using assms by (simp add: strncpy_def)

lemma strncpy_overrun: "cap < n \<Longrightarrow> strncpy b cap blk n = None"
  by (simp add: strncpy_def)

lemma store_terminator:
  assumes "n < cap"
  shows "store_byte (strncpy_bytes b blk n) cap n NUL = Some (copy_out b (c_str blk) n)"
proof -
  have "(strncpy_bytes b blk n)(n := NUL) = copy_out b (c_str blk) n"
    by (auto simp: strncpy_bytes_def copy_out_def c_str_nth fun_eq_iff)
  then show ?thesis using assms by (simp add: store_byte_def)
qed

lemma copy_out_prefix:
  "map (copy_out b s n) [0..<n] = take n s @ replicate (n - length s) NUL"
  by (rule nth_equalityI) (auto simp: copy_out_def nth_append)

lemma copy_out_props:
  "n < i \<Longrightarrow> copy_out b s n i = b i"
  "i < min (length s) n \<Longrightarrow> copy_out b s n i = s ! i"
  "copy_out b s n (min (length s) n) = NUL"
  by (auto simp: copy_out_def min_def split: if_splits)

lemma buf_string_copy_out:
  assumes "NUL \<notin> set s"
  shows "buf_string (copy_out b s n) (Suc n) = take n s"
proof -
  have "map (copy_out b s n) [0..<Suc n] = map (copy_out b s n) [0..<n] @ [NUL]"
    by (simp add: copy_out_def)
  also have "\<dots> = take n s @ replicate (n - length s) NUL @ [NUL]"
    by (simp add: copy_out_prefix)
  also have "replicate (n - length s) NUL @ [NUL] = NUL # replicate (n - length s) NUL"
    by (simp add: replicate_append_same)
  finally have "map (copy_out b s n) [0..<Suc n] = take n s @ NUL # replicate (n - length s) NUL" .
  moreover have "NUL \<notin> set (take n s)" using assms by (auto dest: in_set_takeD)
  ultimately show ?thesis by (simp add: buf_string_def c_str_cut)
qed

lemma unat_pred: "(n :: size_t) \<noteq> 0 \<Longrightarrow> Suc (unat (n - 1)) = unat n"
  by (simp add: unat_minus_one unat_gt_0 Suc_pred)

section \<open>Payloads\<close>

lemma payload_frame:
  assumes "\<forall>a\<in>set ps. payload_ptr m' a = payload_ptr m a"
    and "\<forall>a\<in>set ps. \<forall>w. payload_ptr m a = Some w \<longrightarrow> strs m' w = strs m w"
  shows "list_all (payload_ok m') ps = list_all (payload_ok m) ps"
    and "map (payload_ptr m') ps = map (payload_ptr m) ps"
    and "map (node_str m') ps = map (node_str m) ps"
proof -
  have "payload_ok m' a = payload_ok m a \<and> node_str m' a = node_str m a" if "a \<in> set ps" for a
    using assms that
    by (cases "payload_ptr m a") (simp_all add: payload_ok_def node_str_def)
  then show "list_all (payload_ok m') ps = list_all (payload_ok m) ps"
    and "map (node_str m') ps = map (node_str m) ps"
    by (simp_all add: list_all_iff)
  show "map (payload_ptr m') ps = map (payload_ptr m) ps"
    using assms(1) by simp
qed

lemma payload_ok_alloc:
  "payload_ok m a \<Longrightarrow> \<exists>v. payload_ptr m a = Some v \<and> strs m v \<noteq> None"
  by (auto simp: payload_ok_def split: option.splits)

lemma payload_ok_strs:
  "payload_ok m a \<Longrightarrow> payload_ptr m a = Some w \<Longrightarrow> strs m w \<noteq> None"
  by (auto simp: payload_ok_def split: option.splits)

section \<open>The effect of each operation on a well-formed queue\<close>

lemmas op_defs = malloc_ele_def malloc_bytes_def free_ele_def free_bytes_def strcpy_def
  upd_ele_def upd_queue_def

lemma insert_head_effect:
  assumes q: "queues m qa = Some qs" and n: "eles m n = None"
    and h: "\<And>h. q_head qs = Some h \<Longrightarrow> eles m h \<noteq> None"
  shows "\<exists>m'. queue_insert_head (Some (n, j)) (Some (v, jv)) (Some qa) s m = Some (True, m') \<and>
      queues m' = (queues m)(qa \<mapsto> \<lparr>q_head = Some n,
         q_tail = (if q_head qs = None then Some n else q_tail qs), q_size = Suc (q_size qs)\<rparr>) \<and>
      eles m' = (case q_head qs of
                None \<Rightarrow> (eles m)(n \<mapsto> \<lparr>e_value = Some v, e_next = None, e_prev = None\<rparr>)
              | Some h \<Rightarrow> (eles m)(n \<mapsto> \<lparr>e_value = Some v, e_next = Some h, e_prev = None\<rparr>,
                    h \<mapsto> (the (eles m h))\<lparr>e_prev := Some n\<rparr>)) \<and>
      strs m' = (strs m)(v \<mapsto> c_str s @ [NUL])"
proof (cases "q_head qs")
  case None
  then show ?thesis using q n
    by (cases j; cases qs) (simp add: queue_insert_head_def op_defs)
next
  case (Some hd)
  with h obtain eh where "eles m hd = Some eh" by auto
  with Some n have "hd \<noteq> n" by auto
  then show ?thesis using q n Some \<open>eles m hd = Some eh\<close>
    by (cases j; cases qs) (simp add: queue_insert_head_def op_defs)
qed

lemma insert_head_dlist:
  assumes d: "dlist m qa ps" and n: "eles m n = None" and v: "strs m v = None"
  shows "\<exists>m'. queue_insert_head (Some (n, j)) (Some (v, jv)) (Some qa) s m = Some (True, m') \<and>
      dlist m' qa (n # ps) \<and> node_str m' n = c_str s \<and>
      map (node_str m') ps = map (node_str m) ps"
proof -
  from d obtain qs where q: "queues m qa = Some qs" and sz: "q_size qs = length ps"
    and fw: "seg e_next (eles m) (q_head qs) ps None"
    and bw: "seg e_prev (eles m) (q_tail qs) (rev ps) None"
    and dist: "distinct ps" and pay: "list_all (payload_ok m) ps"
    and pdist: "distinct (map (payload_ptr m) ps)"
    unfolding dlist_def by blast
  have alloc: "eles m a \<noteq> None" if "a \<in> set ps" for a
    using seg_dom [OF fw that] .
  have hd: "q_head qs = (case ps of [] \<Rightarrow> None | a # _ \<Rightarrow> Some a)"
    using seg_head [OF fw] .
  have nps: "n \<notin> set ps" using alloc [of n] n by blast
  have "\<And>h. q_head qs = Some h \<Longrightarrow> eles m h \<noteq> None"
    using hd alloc by (cases ps) auto
  from insert_head_effect [OF q n this, of j v jv s]
  obtain m' where res: "queue_insert_head (Some (n, j)) (Some (v, jv)) (Some qa) s m = Some (True, m')"
    and mq: "queues m' = (queues m)(qa \<mapsto> \<lparr>q_head = Some n,
         q_tail = (if q_head qs = None then Some n else q_tail qs), q_size = Suc (q_size qs)\<rparr>)"
    and me: "eles m' = (case q_head qs of
                None \<Rightarrow> (eles m)(n \<mapsto> \<lparr>e_value = Some v, e_next = None, e_prev = None\<rparr>)
              | Some h \<Rightarrow> (eles m)(n \<mapsto> \<lparr>e_value = Some v, e_next = Some h, e_prev = None\<rparr>,
                    h \<mapsto> (the (eles m h))\<lparr>e_prev := Some n\<rparr>))"
    and ms: "strs m' = (strs m)(v \<mapsto> c_str s @ [NUL])"
    by blast
  have new: "eles m' n = Some \<lparr>e_value = Some v, e_next = q_head qs, e_prev = None\<rparr>"
    using me nps hd by (cases ps) auto
  have nxt: "map_option e_next (eles m' a) = map_option e_next (eles m a)" if "a \<in> set ps" for a
    using me that nps alloc [OF that] hd by (cases ps) (auto split: option.splits)
  have val: "payload_ptr m' a = payload_ptr m a" if "a \<in> set ps" for a
    using me that nps alloc [OF that] hd
    by (cases ps) (auto simp: payload_ptr_def split: option.splits)
  have str: "strs m' w = strs m w" if "a \<in> set ps" "payload_ptr m a = Some w" for a w
  proof -
    from pay that(1) have "payload_ok m a" by (simp add: list_all_iff)
    with that(2) v have "w \<noteq> v" using payload_ok_strs [of m a w] by auto
    then show ?thesis using ms by simp
  qed
  have c1: "\<forall>a\<in>set ps. payload_ptr m' a = payload_ptr m a" using val by blast
  have c2: "\<forall>a\<in>set ps. \<forall>w. payload_ptr m a = Some w \<longrightarrow> strs m' w = strs m w"
    using str by blast
  note pf = payload_frame [OF c1 c2]
  have pn: "payload_ptr m' n = Some v" using new by (simp add: payload_ptr_def)
  have fw': "seg e_next (eles m') (Some n) (n # ps) None"
    using new fw seg_frame [of ps e_next "eles m'" "eles m", OF nxt] by simp
  have bw': "seg e_prev (eles m') (if q_head qs = None then Some n else q_tail qs) (rev (n # ps)) None"
  proof (cases ps)
    case Nil
    then show ?thesis using new hd by simp
  next
    case (Cons b bs)
    then have hb: "q_head qs = Some b" using hd by simp
    from bw Cons obtain t where t1: "seg e_prev (eles m) (q_tail qs) (rev bs) t"
      and t2: "seg e_prev (eles m) t [b] None"
      by (auto simp: seg_append)
    from t2 have tb: "t = Some b" by simp
    have "b \<notin> set bs" using dist Cons by simp
    moreover have "n \<notin> set bs" using nps Cons by simp
    ultimately have "map_option e_prev (eles m' a) = map_option e_prev (eles m a)"
      if "a \<in> set (rev bs)" for a
      using me hb that by auto
    from seg_frame [of "rev bs" e_prev "eles m'" "eles m", OF this] t1 tb
    have s1: "seg e_prev (eles m') (q_tail qs) (rev bs) (Some b)" by simp
    have "b \<noteq> n" using nps Cons by auto
    then have s2: "seg e_prev (eles m') (Some b) [b] (Some n)"
      using me hb by simp
    have s3: "seg e_prev (eles m') (Some n) [n] None" using new by simp
    have "seg e_prev (eles m') (q_tail qs) ((rev bs @ [b]) @ [n]) None"
      by (rule seg_appendI [OF seg_appendI [OF s1 s2] s3])
    then show ?thesis using hb Cons by simp
  qed
  have nv: "Some v \<notin> set (map (payload_ptr m) ps)"
  proof
    assume "Some v \<in> set (map (payload_ptr m) ps)"
    then obtain a where "a \<in> set ps" "payload_ptr m a = Some v" by auto
    with pay have "strs m v \<noteq> None"
      using payload_ok_strs [of m a v] by (simp add: list_all_iff)
    with v show False by simp
  qed
  have pmap: "map (payload_ptr m') (n # ps) = Some v # map (payload_ptr m) ps"
    by (simp only: list.map pn pf(2))
  have pd': "distinct (map (payload_ptr m') (n # ps))"
    unfolding pmap using nv pdist by simp
  have "payload_ok m' n" using pn ms by (simp add: payload_ok_def)
  then have pay': "list_all (payload_ok m') (n # ps)"
    using pay pf(1) by simp
  have "dlist m' qa (n # ps)"
    unfolding dlist_def
    using mq sz fw' bw' dist nps pay' pd'
    by simp
  moreover have "node_str m' n = c_str s"
    using pn ms by (simp add: node_str_def)
  ultimately show ?thesis using res pf(3) by blast
qed

lemma insert_tail_effect:
  assumes q: "queues m qa = Some qs" and n: "eles m n = None"
    and h: "\<And>t. q_tail qs = Some t \<Longrightarrow> eles m t \<noteq> None"
  shows "\<exists>m'. queue_insert_tail (Some (n, j)) (Some (v, jv)) (Some qa) s m = Some (True, m') \<and>
      queues m' = (queues m)(qa \<mapsto> \<lparr>q_head = (if q_tail qs = None then Some n else q_head qs),
         q_tail = Some n, q_size = Suc (q_size qs)\<rparr>) \<and>
      eles m' = (case q_tail qs of
                None \<Rightarrow> (eles m)(n \<mapsto> \<lparr>e_value = Some v, e_next = None, e_prev = None\<rparr>)
              | Some t \<Rightarrow> (eles m)(n \<mapsto> \<lparr>e_value = Some v, e_next = None, e_prev = Some t\<rparr>,
                    t \<mapsto> (the (eles m t))\<lparr>e_next := Some n\<rparr>)) \<and>
      strs m' = (strs m)(v \<mapsto> c_str s @ [NUL])"
proof (cases "q_tail qs")
  case None
  then show ?thesis using q n
    by (cases j; cases qs) (simp add: queue_insert_tail_def op_defs)
next
  case (Some tl)
  with h obtain et where "eles m tl = Some et" by auto
  with Some n have "tl \<noteq> n" by auto
  then show ?thesis using q n Some \<open>eles m tl = Some et\<close>
    by (cases j; cases qs) (simp add: queue_insert_tail_def op_defs)
qed

lemma insert_tail_dlist:
  assumes d: "dlist m qa ps" and n: "eles m n = None" and v: "strs m v = None"
  shows "\<exists>m'. queue_insert_tail (Some (n, j)) (Some (v, jv)) (Some qa) s m = Some (True, m') \<and>
      dlist m' qa (ps @ [n]) \<and> node_str m' n = c_str s \<and>
      map (node_str m') ps = map (node_str m) ps"
proof -
  from d obtain qs where q: "queues m qa = Some qs" and sz: "q_size qs = length ps"
    and fw: "seg e_next (eles m) (q_head qs) ps None"
    and bw: "seg e_prev (eles m) (q_tail qs) (rev ps) None"
    and dist: "distinct ps" and pay: "list_all (payload_ok m) ps"
    and pdist: "distinct (map (payload_ptr m) ps)"
    unfolding dlist_def by blast
  have alloc: "eles m a \<noteq> None" if "a \<in> set ps" for a
    using seg_dom [OF fw that] .
  have tl: "q_tail qs = (case rev ps of [] \<Rightarrow> None | a # _ \<Rightarrow> Some a)"
    using seg_head [OF bw] .
  have nps: "n \<notin> set ps" using alloc [of n] n by blast
  have tlin: "t \<in> set ps" if "q_tail qs = Some t" for t
    using tl that by (cases ps rule: rev_cases) auto
  have "\<And>t. q_tail qs = Some t \<Longrightarrow> eles m t \<noteq> None"
    using tlin alloc by blast
  from insert_tail_effect [OF q n this, of j v jv s]
  obtain m' where res: "queue_insert_tail (Some (n, j)) (Some (v, jv)) (Some qa) s m = Some (True, m')"
    and mq: "queues m' = (queues m)(qa \<mapsto> \<lparr>q_head = (if q_tail qs = None then Some n else q_head qs),
         q_tail = Some n, q_size = Suc (q_size qs)\<rparr>)"
    and me: "eles m' = (case q_tail qs of
                None \<Rightarrow> (eles m)(n \<mapsto> \<lparr>e_value = Some v, e_next = None, e_prev = None\<rparr>)
              | Some t \<Rightarrow> (eles m)(n \<mapsto> \<lparr>e_value = Some v, e_next = None, e_prev = Some t\<rparr>,
                    t \<mapsto> (the (eles m t))\<lparr>e_next := Some n\<rparr>))"
    and ms: "strs m' = (strs m)(v \<mapsto> c_str s @ [NUL])"
    by blast
  have new: "eles m' n = Some \<lparr>e_value = Some v, e_next = None, e_prev = q_tail qs\<rparr>"
  proof (cases "q_tail qs")
    case None
    then show ?thesis using me by simp
  next
    case (Some t)
    then have "t \<noteq> n" using tlin nps by auto
    then show ?thesis using me Some by simp
  qed
  have prv: "map_option e_prev (eles m' a) = map_option e_prev (eles m a)" if "a \<in> set (rev ps)" for a
  proof -
    from that have "a \<noteq> n" "eles m a \<noteq> None" using nps alloc by auto
    then show ?thesis using me by (cases "q_tail qs") auto
  qed
  have val: "payload_ptr m' a = payload_ptr m a" if "a \<in> set ps" for a
  proof -
    from that have "a \<noteq> n" "eles m a \<noteq> None" using nps alloc by auto
    then show ?thesis using me by (cases "q_tail qs") (auto simp: payload_ptr_def)
  qed
  have str: "strs m' w = strs m w" if "a \<in> set ps" "payload_ptr m a = Some w" for a w
  proof -
    from pay that(1) have "payload_ok m a" by (simp add: list_all_iff)
    with that(2) v have "w \<noteq> v" using payload_ok_strs [of m a w] by auto
    then show ?thesis using ms by simp
  qed
  have c1: "\<forall>a\<in>set ps. payload_ptr m' a = payload_ptr m a" using val by blast
  have c2: "\<forall>a\<in>set ps. \<forall>w. payload_ptr m a = Some w \<longrightarrow> strs m' w = strs m w"
    using str by blast
  note pf = payload_frame [OF c1 c2]
  have pn: "payload_ptr m' n = Some v" using new by (simp add: payload_ptr_def)
  have bw': "seg e_prev (eles m') (Some n) (rev (ps @ [n])) None"
    using new bw seg_frame [of "rev ps" e_prev "eles m'" "eles m", OF prv] by simp
  have fw': "seg e_next (eles m') (if q_tail qs = None then Some n else q_head qs) (ps @ [n]) None"
  proof (cases ps rule: rev_cases)
    case Nil
    then show ?thesis using new tl by simp
  next
    case (snoc bs b)
    then have hb: "q_tail qs = Some b" using tl by simp
    from fw snoc obtain t where t1: "seg e_next (eles m) (q_head qs) bs t"
      and t2: "seg e_next (eles m) t [b] None"
      by (auto simp: seg_append)
    from t2 have tb: "t = Some b" by simp
    have "b \<notin> set bs" using dist snoc by simp
    moreover have "n \<notin> set bs" using nps snoc by simp
    ultimately have "map_option e_next (eles m' a) = map_option e_next (eles m a)"
      if "a \<in> set bs" for a
      using me hb that by auto
    from seg_frame [of bs e_next "eles m'" "eles m", OF this] t1 tb
    have s1: "seg e_next (eles m') (q_head qs) bs (Some b)" by simp
    have "b \<noteq> n" using nps snoc by auto
    then have s2: "seg e_next (eles m') (Some b) [b] (Some n)"
      using me hb by simp
    have s3: "seg e_next (eles m') (Some n) [n] None" using new by simp
    have "seg e_next (eles m') (q_head qs) ((bs @ [b]) @ [n]) None"
      by (rule seg_appendI [OF seg_appendI [OF s1 s2] s3])
    then show ?thesis using hb snoc by simp
  qed
  have nv: "Some v \<notin> set (map (payload_ptr m) ps)"
  proof
    assume "Some v \<in> set (map (payload_ptr m) ps)"
    then obtain a where "a \<in> set ps" "payload_ptr m a = Some v" by auto
    with pay have "strs m v \<noteq> None"
      using payload_ok_strs [of m a v] by (simp add: list_all_iff)
    with v show False by simp
  qed
  have pmap: "map (payload_ptr m') (ps @ [n]) = map (payload_ptr m) ps @ [Some v]"
    by (simp only: map_append list.map pn pf(2))
  have pd': "distinct (map (payload_ptr m') (ps @ [n]))"
    unfolding pmap using nv pdist by simp
  have "payload_ok m' n" using pn ms by (simp add: payload_ok_def)
  then have pay': "list_all (payload_ok m') (ps @ [n])"
    using pay pf(1) by simp
  have "dlist m' qa (ps @ [n])"
    unfolding dlist_def
    using mq sz fw' bw' dist nps pay' pd'
    by simp
  moreover have "node_str m' n = c_str s"
    using pn ms by (simp add: node_str_def)
  ultimately show ?thesis using res pf(3) by blast
qed

lemma remove_head_effect:
  assumes q: "queues m qa = Some qs" and sz: "q_size qs \<noteq> 0" and hd: "q_head qs = Some a"
    and ea: "eles m a = Some ea" and va: "e_value ea = Some v" and blk: "strs m v = Some blk"
    and nul: "NUL \<in> set blk"
    and nx: "\<And>b. e_next ea = Some b \<Longrightarrow> b \<noteq> a \<and> eles m b \<noteq> None"
    and cap: "buf = None \<or> bufsize \<noteq> 0"
  shows "\<exists>m'. queue_remove_head (Some qa) buf bufsize m =
        Some (True, map_option (\<lambda>b. copy_out b (c_str blk) (unat (bufsize - 1))) buf, m') \<and>
      queues m' = (queues m)(qa \<mapsto> \<lparr>q_head = e_next ea,
         q_tail = (if e_next ea = None then None else q_tail qs), q_size = q_size qs - 1\<rparr>) \<and>
      eles m' = (case e_next ea of
                None \<Rightarrow> (eles m)(a := None)
              | Some b \<Rightarrow> (eles m)(a := None, b \<mapsto> (the (eles m b))\<lparr>e_prev := None\<rparr>)) \<and>
      strs m' = (strs m)(v := None)"
proof -
  have b1: "strncpy b (unat bufsize) blk (unat (bufsize - 1)) =
      Some (strncpy_bytes b blk (unat (bufsize - 1)))"
    and co: "store_byte (strncpy_bytes b blk (unat (bufsize - 1))) (unat bufsize)
      (unat (bufsize - 1)) NUL = Some (copy_out b (c_str blk) (unat (bufsize - 1)))"
    if "buf = Some b" for b
  proof -
    from that cap have "bufsize \<noteq> 0" by simp
    then have lt: "unat (bufsize - 1) < unat bufsize" using unat_pred [of bufsize] by simp
    show "strncpy b (unat bufsize) blk (unat (bufsize - 1)) =
      Some (strncpy_bytes b blk (unat (bufsize - 1)))"
      by (rule strncpy_in_bounds [OF nul lt])
    show "store_byte (strncpy_bytes b blk (unat (bufsize - 1))) (unat bufsize)
      (unat (bufsize - 1)) NUL = Some (copy_out b (c_str blk) (unat (bufsize - 1)))"
      by (rule store_terminator [OF lt])
  qed
  show ?thesis
  proof (cases "e_next ea")
    case None
    then show ?thesis using q sz hd ea va blk b1 co
      by (cases qs; cases buf) (simp_all add: queue_remove_head_def op_defs)
  next
    case (Some b)
    with nx obtain eb where "b \<noteq> a" "eles m b = Some eb" by auto
    then show ?thesis using q sz hd ea va blk b1 co Some
      by (cases qs; cases buf) (simp_all add: queue_remove_head_def op_defs)
  qed
qed

lemma remove_head_overrun:
  assumes q: "queues m qa = Some qs" and sz: "q_size qs \<noteq> 0" and hd: "q_head qs = Some a"
    and ea: "eles m a = Some ea" and va: "e_value ea = Some v" and blk: "strs m v = Some blk"
  shows "queue_remove_head (Some qa) (Some b) 0 m = None"
proof -
  have "unat (0 :: size_t) < unat (0 - 1 :: size_t)" by (simp add: unat_gt_0)
  then have "strncpy b (unat (0 :: size_t)) blk (unat (0 - 1 :: size_t)) = None"
    by (rule strncpy_overrun)
  then show ?thesis using q sz hd ea va blk
    by (cases qs) (simp add: queue_remove_head_def op_defs)
qed

lemma remove_head_dlist:
  assumes d: "dlist m qa (a # ps)" and cap: "buf = None \<or> bufsize \<noteq> 0"
  shows "\<exists>m'. queue_remove_head (Some qa) buf bufsize m =
        Some (True, map_option (\<lambda>b. copy_out b (node_str m a) (unat (bufsize - 1))) buf, m') \<and>
      dlist m' qa ps \<and> map (node_str m') ps = map (node_str m) ps \<and>
      eles m' = (\<lambda>x. if x = a then None
                     else if x \<in> set (take 1 ps) then map_option (\<lambda>e. e\<lparr>e_prev := None\<rparr>) (eles m x)
                     else eles m x) \<and>
      strs m' = (strs m)(the (payload_ptr m a) := None)"
proof -
  from d obtain qs where q: "queues m qa = Some qs" and sz: "q_size qs = length (a # ps)"
    and fw: "seg e_next (eles m) (q_head qs) (a # ps) None"
    and bw: "seg e_prev (eles m) (q_tail qs) (rev (a # ps)) None"
    and dist: "distinct (a # ps)" and pay: "list_all (payload_ok m) (a # ps)"
    and pdist: "distinct (map (payload_ptr m) (a # ps))"
    unfolding dlist_def by blast
  have alloc: "eles m x \<noteq> None" if "x \<in> set (a # ps)" for x
    using seg_dom [OF fw that] .
  from fw obtain ea where hd: "q_head qs = Some a" and ea: "eles m a = Some ea"
    and fw1: "seg e_next (eles m) (e_next ea) ps None"
    by (auto split: option.splits)
  have nxt: "e_next ea = (case ps of [] \<Rightarrow> None | b # _ \<Rightarrow> Some b)"
    using seg_head [OF fw1] .
  from pay have "payload_ok m a" by simp
  then obtain v blk where va: "e_value ea = Some v" and blk: "strs m v = Some blk"
    and nul: "NUL \<in> set blk"
    using ea by (auto simp: payload_ok_def payload_ptr_def split: option.splits)
  have pa: "payload_ptr m a = Some v" using ea va by (simp add: payload_ptr_def)
  have ns: "node_str m a = c_str blk" using pa blk by (simp add: node_str_def)
  have aps: "a \<notin> set ps" using dist by simp
  have nx: "\<And>b. e_next ea = Some b \<Longrightarrow> b \<noteq> a \<and> eles m b \<noteq> None"
    using nxt aps alloc by (cases ps) auto
  have sz0: "q_size qs \<noteq> 0" using sz by simp
  from remove_head_effect [OF q sz0 hd ea va blk nul nx cap]
  obtain m' where res: "queue_remove_head (Some qa) buf bufsize m =
        Some (True, map_option (\<lambda>b. copy_out b (c_str blk) (unat (bufsize - 1))) buf, m')"
    and mq: "queues m' = (queues m)(qa \<mapsto> \<lparr>q_head = e_next ea,
         q_tail = (if e_next ea = None then None else q_tail qs), q_size = q_size qs - 1\<rparr>)"
    and me: "eles m' = (case e_next ea of
                None \<Rightarrow> (eles m)(a := None)
              | Some b \<Rightarrow> (eles m)(a := None, b \<mapsto> (the (eles m b))\<lparr>e_prev := None\<rparr>))"
    and ms: "strs m' = (strs m)(v := None)"
    by blast
  have me': "eles m' = (\<lambda>x. if x = a then None
                     else if x \<in> set (take 1 ps) then map_option (\<lambda>e. e\<lparr>e_prev := None\<rparr>) (eles m x)
                     else eles m x)"
  proof (cases ps)
    case Nil
    then show ?thesis using me nxt by (auto simp: fun_eq_iff)
  next
    case (Cons b bs)
    then obtain eb where "eles m b = Some eb" using alloc [of b] by auto
    moreover have "b \<noteq> a" using aps Cons by auto
    ultimately show ?thesis using me nxt Cons by (auto simp: fun_eq_iff)
  qed
  have nxt': "map_option e_next (eles m' x) = map_option e_next (eles m x)" if "x \<in> set ps" for x
  proof -
    from that have "x \<noteq> a" "eles m x \<noteq> None" using aps alloc by auto
    then show ?thesis unfolding me' by auto
  qed
  have val: "payload_ptr m' x = payload_ptr m x" if "x \<in> set ps" for x
  proof -
    from that have "x \<noteq> a" "eles m x \<noteq> None" using aps alloc by auto
    then show ?thesis by (auto simp: payload_ptr_def me')
  qed
  have str: "strs m' w = strs m w" if "x \<in> set ps" "payload_ptr m x = Some w" for x w
  proof -
    have "payload_ptr m a \<notin> payload_ptr m ` set ps" using pdist by simp
    then have "payload_ptr m x \<noteq> payload_ptr m a" using that(1) by (metis imageI)
    then have "w \<noteq> v" using that(2) pa by auto
    then show ?thesis using ms by simp
  qed
  have c1: "\<forall>x\<in>set ps. payload_ptr m' x = payload_ptr m x" using val by blast
  have c2: "\<forall>x\<in>set ps. \<forall>w. payload_ptr m x = Some w \<longrightarrow> strs m' w = strs m w"
    using str by blast
  note pf = payload_frame [OF c1 c2]
  have fw': "seg e_next (eles m') (e_next ea) ps None"
    using fw1 seg_frame [of ps e_next "eles m'" "eles m", OF nxt'] by simp
  have bw': "seg e_prev (eles m') (if e_next ea = None then None else q_tail qs) (rev ps) None"
  proof (cases ps)
    case Nil
    then show ?thesis using nxt by simp
  next
    case (Cons b bs)
    then have nb: "e_next ea = Some b" using nxt by simp
    from bw Cons have "seg e_prev (eles m) (q_tail qs) (rev bs @ ([b] @ [a])) None" by simp
    then obtain t where t1: "seg e_prev (eles m) (q_tail qs) (rev bs) t"
      and t2: "seg e_prev (eles m) t ([b] @ [a]) None"
      unfolding seg_append [of _ _ _ "rev bs"] by blast
    from t2 have tb: "t = Some b" by simp
    have "b \<notin> set bs" "a \<notin> set bs" "b \<noteq> a" using dist Cons by auto
    then have "map_option e_prev (eles m' x) = map_option e_prev (eles m x)"
      if "x \<in> set (rev bs)" for x
      unfolding me' using that Cons by auto
    from seg_frame [of "rev bs" e_prev "eles m'" "eles m", OF this] t1 tb
    have s1: "seg e_prev (eles m') (q_tail qs) (rev bs) (Some b)" by simp
    obtain eb where "eles m b = Some eb" using alloc [of b] Cons by auto
    then have s2: "seg e_prev (eles m') (Some b) [b] None"
      unfolding me' using \<open>b \<noteq> a\<close> Cons by simp
    have "seg e_prev (eles m') (q_tail qs) (rev bs @ [b]) None"
      by (rule seg_appendI [OF s1 s2])
    then show ?thesis using nb Cons by simp
  qed
  have pd': "distinct (map (payload_ptr m') ps)"
    unfolding pf(2) using pdist by simp
  have pay': "list_all (payload_ok m') ps"
    using pay pf(1) by simp
  have "dlist m' qa ps"
    unfolding dlist_def
    using mq sz fw' bw' dist pay' pd'
    by simp
  then show ?thesis using res pf(3) me' ms ns pa by auto
qed

lemma remove_head_overrun_dlist:
  assumes d: "dlist m qa (a # ps)"
  shows "queue_remove_head (Some qa) (Some b) 0 m = None"
proof -
  from d obtain qs where q: "queues m qa = Some qs" and sz: "q_size qs = length (a # ps)"
    and fw: "seg e_next (eles m) (q_head qs) (a # ps) None"
    and pay: "list_all (payload_ok m) (a # ps)"
    unfolding dlist_def by blast
  from fw obtain ea where hd: "q_head qs = Some a" and ea: "eles m a = Some ea"
    by (auto split: option.splits)
  from pay have "payload_ok m a" by simp
  then obtain v blk where va: "e_value ea = Some v" and blk: "strs m v = Some blk"
    using ea by (auto simp: payload_ok_def payload_ptr_def split: option.splits)
  have sz0: "q_size qs \<noteq> 0" using sz by simp
  show ?thesis by (rule remove_head_overrun [OF q sz0 hd ea va blk])
qed

lemma swap_links_fields [simp]:
  "e_next (swap_links e) = e_prev e" "e_prev (swap_links e) = e_next e"
  "e_value (swap_links e) = e_value e"
  by (simp_all add: swap_links_def)

lemma reverse_loop_seg:
  assumes "seg e_next (eles m) p ps None" and "distinct ps"
  shows "reverse_loop p m = Some (m\<lparr>eles := swap_all ps (eles m)\<rparr>)"
  using assms
proof (induction ps arbitrary: p m)
  case Nil
  then show ?case by (simp add: reverse_loop.simps swap_all_def)
next
  case (Cons a as)
  from Cons.prems obtain e where p: "p = Some a" and e: "eles m a = Some e"
    and rest: "seg e_next (eles m) (e_next e) as None"
    by (auto split: option.splits)
  define m2 where "m2 = m\<lparr>eles := (eles m)(a \<mapsto> swap_links e)\<rparr>"
  have a: "a \<notin> set as" and das: "distinct as" using Cons.prems by simp_all
  have step: "reverse_loop p m = reverse_loop (e_next e) m2"
    unfolding p m2_def
    by (subst reverse_loop.simps) (simp add: e upd_ele_def swap_links_def)
  have "map_option e_next (eles m2 x) = map_option e_next (eles m x)" if "x \<in> set as" for x
    using that a by (auto simp: m2_def)
  from seg_frame [of as e_next "eles m2" "eles m", OF this] rest
  have "seg e_next (eles m2) (e_next e) as None" by simp
  from Cons.IH [OF this das]
  have "reverse_loop (e_next e) m2 = Some (m2\<lparr>eles := swap_all as (eles m2)\<rparr>)" .
  moreover have "swap_all as (eles m2) = swap_all (a # as) (eles m)"
    using a e by (auto simp: swap_all_def m2_def fun_eq_iff)
  ultimately show ?case using step by (simp add: m2_def)
qed

lemma reverse_effect:
  assumes d: "dlist m qa ps"
  shows "\<exists>m' qs. queue_reverse (Some qa) m = Some m' \<and> queues m qa = Some qs \<and>
      queues m' = (queues m)(qa \<mapsto> qs\<lparr>q_tail := q_head qs, q_head := q_tail qs\<rparr>) \<and>
      eles m' = swap_all ps (eles m) \<and> strs m' = strs m"
proof -
  from d obtain qs where q: "queues m qa = Some qs" and sz: "q_size qs = length ps"
    and fw: "seg e_next (eles m) (q_head qs) ps None"
    and bw: "seg e_prev (eles m) (q_tail qs) (rev ps) None"
    and dist: "distinct ps"
    unfolding dlist_def by blast
  have hd: "q_head qs = (case ps of [] \<Rightarrow> None | a # _ \<Rightarrow> Some a)"
    using seg_head [OF fw] .
  have tl: "q_tail qs = (case rev ps of [] \<Rightarrow> None | a # _ \<Rightarrow> Some a)"
    using seg_head [OF bw] .
  show ?thesis
  proof (cases ps)
    case Nil
    then have "queue_reverse (Some qa) m = Some m" using q hd
      by (simp add: queue_reverse_def)
    moreover have "qs\<lparr>q_tail := q_head qs, q_head := q_tail qs\<rparr> = qs"
      using hd tl Nil by simp
    ultimately show ?thesis using q Nil
      by (auto simp: swap_all_def fun_eq_iff)
  next
    case (Cons a as)
    from fw Cons obtain e where ha: "q_head qs = Some a" and e: "eles m a = Some e"
      and rest: "seg e_next (eles m) (e_next e) as None"
      by (auto split: option.splits)
    show ?thesis
    proof (cases as)
      case Nil
      then have en: "e_next e = None" using rest by simp
      have ta: "q_tail qs = Some a" using tl Cons Nil by simp
      have ep: "e_prev e = None" using bw Cons Nil e by simp
      have "queue_reverse (Some qa) m = Some m" using q ha e en
        by (simp add: queue_reverse_def)
      moreover have "qs\<lparr>q_tail := q_head qs, q_head := q_tail qs\<rparr> = qs"
        using ha ta by simp
      moreover have "swap_links e = e" using en ep by (simp add: swap_links_def)
      ultimately show ?thesis using q Cons Nil e
        by (auto simp: swap_all_def fun_eq_iff)
    next
      case (Cons b bs)
      then have en: "e_next e = Some b" using rest by simp
      have "reverse_loop (q_head qs) m = Some (m\<lparr>eles := swap_all ps (eles m)\<rparr>)"
        using reverse_loop_seg [OF fw dist] .
      then show ?thesis using q ha e en
        by (simp add: queue_reverse_def upd_queue_def)
    qed
  qed
qed

lemma reverse_dlist:
  assumes d: "dlist m qa ps"
  shows "\<exists>m'. queue_reverse (Some qa) m = Some m' \<and> dlist m' qa (rev ps) \<and>
      map (node_str m') ps = map (node_str m) ps"
proof -
  from d obtain qs where q: "queues m qa = Some qs" and sz: "q_size qs = length ps"
    and fw: "seg e_next (eles m) (q_head qs) ps None"
    and bw: "seg e_prev (eles m) (q_tail qs) (rev ps) None"
    and dist: "distinct ps" and pay: "list_all (payload_ok m) ps"
    and pdist: "distinct (map (payload_ptr m) ps)"
    unfolding dlist_def by blast
  from reverse_effect [OF d] q
  obtain m' where res: "queue_reverse (Some qa) m = Some m'"
    and mq: "queues m' = (queues m)(qa \<mapsto> qs\<lparr>q_tail := q_head qs, q_head := q_tail qs\<rparr>)"
    and me: "eles m' = swap_all ps (eles m)" and ms: "strs m' = strs m"
    by auto
  have "map_option e_next (eles m' a) = map_option e_prev (eles m a)" if "a \<in> set (rev ps)" for a
    using that by (cases "eles m a") (simp_all add: me swap_all_def)
  from seg_cong [of "rev ps" e_next "eles m'" e_prev "eles m", OF this] bw
  have fw': "seg e_next (eles m') (q_tail qs) (rev ps) None" by simp
  have "map_option e_prev (eles m' a) = map_option e_next (eles m a)" if "a \<in> set ps" for a
    using that by (cases "eles m a") (simp_all add: me swap_all_def)
  from seg_cong [of ps e_prev "eles m'" e_next "eles m", OF this] fw
  have bw': "seg e_prev (eles m') (q_head qs) (rev (rev ps)) None" by simp
  have c1: "\<forall>a\<in>set ps. payload_ptr m' a = payload_ptr m a"
  proof
    fix a assume "a \<in> set ps"
    then show "payload_ptr m' a = payload_ptr m a"
      by (cases "eles m a") (simp_all add: payload_ptr_def me swap_all_def)
  qed
  have c2: "\<forall>a\<in>set ps. \<forall>w. payload_ptr m a = Some w \<longrightarrow> strs m' w = strs m w"
    using ms by simp
  note pf = payload_frame [OF c1 c2]
  have "rev (map (payload_ptr m') ps) = rev (map (payload_ptr m) ps)"
    by (simp only: pf(2))
  then have "map (payload_ptr m') (rev ps) = rev (map (payload_ptr m) ps)"
    by (simp only: rev_map)
  then have pd': "distinct (map (payload_ptr m') (rev ps))"
    using pdist by (simp only: distinct_rev)
  have pay': "list_all (payload_ok m') (rev ps)"
    using pay pf(1) by simp
  have "dlist m' qa (rev ps)"
    unfolding dlist_def
    using mq sz fw' bw' dist pay' pd'
    by simp
  then show ?thesis using res pf(3) by blast
qed

lemma inv_strings_Cons:
  assumes "queue_inv m qa" and "queue_strings m qa = s # rest"
  shows "\<exists>a ps. dlist m qa (a # ps) \<and> node_str m a = s \<and> map (node_str m) ps = rest"
proof -
  from assms(1) obtain ps where d: "dlist m qa ps" unfolding queue_inv_dlist ..
  then have "queue_strings m qa = map (node_str m) ps"
    by (simp add: queue_strings_def dlist_nodes)
  with assms(2) d show ?thesis by (cases ps) auto
qed

lemma ex_mem_inv: "queue_inv ex_mem 0"
  by (simp add: queue_inv_def ex_mem_def payload_ok_def payload_ptr_def)

lemma ex_mem_strings: "queue_strings ex_mem 0 = [''ab'']"
  by (simp add: queue_strings_def queue_nodes_def ex_mem_def node_str_def payload_ptr_def c_str_def)

section \<open>Failing insertions\<close>

lemma eles_restore: "eles m a = None \<Longrightarrow> m\<lparr>eles := (eles m)(a := None)\<rparr> = m"
  by (simp add: fun_upd_idem)

lemma insert_head_result:
  assumes "case ealloc of None \<Rightarrow> True | Some (a, junk) \<Rightarrow> eles m a = None"
  shows "q = None \<or> ealloc = None \<or> salloc = None \<Longrightarrow>
           queue_insert_head ealloc salloc q s m = Some (False, m)"
    and "queue_insert_head ealloc salloc q s m = Some (False, m') \<Longrightarrow>
           (q = None \<or> ealloc = None \<or> salloc = None) \<and> m' = m"
  using assms
  by (auto simp: queue_insert_head_def op_defs Option.bind_eq_Some_conv eles_restore
      split: option.splits prod.splits if_splits)

lemma insert_tail_result:
  assumes "case ealloc of None \<Rightarrow> True | Some (a, junk) \<Rightarrow> eles m a = None"
  shows "q = None \<or> ealloc = None \<or> salloc = None \<Longrightarrow>
           queue_insert_tail ealloc salloc q s m = Some (False, m)"
    and "queue_insert_tail ealloc salloc q s m = Some (False, m') \<Longrightarrow>
           (q = None \<or> ealloc = None \<or> salloc = None) \<and> m' = m"
  using assms
  by (auto simp: queue_insert_tail_def op_defs Option.bind_eq_Some_conv eles_restore
      split: option.splits prod.splits if_splits)

section \<open>Size, strings and creation\<close>

lemma dlist_size: "dlist m qa ps \<Longrightarrow> queue_size (Some qa) m = Some (length ps)"
  by (auto simp: dlist_def queue_size_def)

lemma dlist_strings: "dlist m qa ps \<Longrightarrow> queue_strings m qa = map (node_str m) ps"
  by (simp add: queue_strings_def dlist_nodes)

lemma dlist_inv: "dlist m qa ps \<Longrightarrow> queue_inv m qa"
  unfolding queue_inv_dlist by blast

lemma inv_size: "queue_inv m qa \<Longrightarrow> \<exists>k. queue_size (Some qa) m = Some k"
  unfolding queue_inv_dlist using dlist_size by blast

lemma remove_head_empty:
  assumes "dlist m qa []"
  shows "queue_remove_head (Some qa) buf bufsize m = Some (False, buf, m)"
  using assms by (auto simp: dlist_def queue_remove_head_def)


lemma queue_new_result:
  "queue_new None m = Some (None, m)"
  "\<exists>m'. queue_new (Some (qa, junk)) m = Some (Some qa, m') \<and> dlist m' qa [] \<and>
     eles m' = eles m \<and> strs m' = strs m \<and> (\<forall>x. x \<noteq> qa \<longrightarrow> queues m' x = queues m x)"
  by (simp_all add: queue_new_def malloc_queue_def upd_queue_def dlist_def)

lemma node_str_no_NUL: "NUL \<notin> set (node_str m a)"
  using c_str_no_NUL by (auto simp: node_str_def split: option.splits)

section \<open>The invariant is preserved\<close>

lemma seg_inverse:
  assumes f: "seg f h p ps None" and g: "seg g h t (rev ps) None"
    and a: "a \<in> set ps" and e: "h a = Some e" and b: "f e = Some b"
  shows "\<exists>eb. h b = Some eb \<and> g eb = Some a"
proof -
  from a obtain xs zs where ps: "ps = xs @ a # zs" by (auto dest: split_list)
  from f obtain u where "seg f h u (a # zs) None"
    unfolding ps seg_append by blast
  then have "seg f h (Some b) zs None" using e b by simp
  then obtain ys where zs: "zs = b # ys" by (cases zs) auto
  have "rev ps = rev ys @ (b # a # rev xs)" by (simp add: ps zs)
  with g have "seg g h t (rev ys @ (b # a # rev xs)) None" by simp
  then obtain w where "seg g h w (b # a # rev xs) None"
    unfolding seg_append by blast
  then show ?thesis by (auto split: option.splits)
qed

lemma dlist_structure:
  assumes d: "dlist m qa ps"
  shows "structure_ok m qa"
proof -
  from d obtain qs where q: "queues m qa = Some qs" and sz: "q_size qs = length ps"
    and fw: "seg e_next (eles m) (q_head qs) ps None"
    and bw: "seg e_prev (eles m) (q_tail qs) (rev ps) None"
    unfolding dlist_def by blast
  have hd: "q_head qs = (case ps of [] \<Rightarrow> None | a # _ \<Rightarrow> Some a)"
    using seg_head [OF fw] .
  have tl: "q_tail qs = (case rev ps of [] \<Rightarrow> None | a # _ \<Rightarrow> Some a)"
    using seg_head [OF bw] .
  have 1: "(q_size qs = 0) = (q_head qs = None)" using sz hd by (cases ps) auto
  have 2: "(q_head qs = None) = (q_tail qs = None)"
    using hd tl by (cases ps; cases "rev ps") auto
  have 3: "\<forall>a\<in>set ps. \<forall>e b. eles m a = Some e \<and> e_next e = Some b \<longrightarrow>
           (\<exists>eb. eles m b = Some eb \<and> e_prev eb = Some a)"
    using seg_inverse [OF fw bw] by blast
  have fw2: "seg e_next (eles m) (q_head qs) (rev (rev ps)) None" using fw by simp
  have 4: "\<forall>a\<in>set ps. \<forall>e b. eles m a = Some e \<and> e_prev e = Some b \<longrightarrow>
           (\<exists>eb. eles m b = Some eb \<and> e_next eb = Some a)"
    using seg_inverse [OF bw fw2] by (metis set_rev)
  note n = dlist_nodes [OF d]
  show ?thesis unfolding structure_ok_def
    by (rule exI [of _ qs], rule exI [of _ ps]) (intro conjI; rule q n 1 2 3 4)
qed

lemma inv_structure: "queue_inv m qa \<Longrightarrow> structure_ok m qa"
  unfolding queue_inv_dlist using dlist_structure by blast

lemma insert_head_inv:
  assumes inv: "queue_inv m qa" and fr: "allocs_fresh ealloc salloc m"
  shows "\<exists>ok m'. queue_insert_head ealloc salloc (Some qa) s m = Some (ok, m') \<and> queue_inv m' qa"
proof (cases "ealloc = None \<or> salloc = None")
  case True
  have "case ealloc of None \<Rightarrow> True | Some (a, junk) \<Rightarrow> eles m a = None"
    using fr by (simp add: allocs_fresh_def)
  from insert_head_result(1) [OF this, of "Some qa" salloc s] True inv
  show ?thesis by blast
next
  case False
  then obtain n j v jv where al: "ealloc = Some (n, j)" "salloc = Some (v, jv)" by auto
  with fr have n: "eles m n = None" and v: "strs m v = None" by (simp_all add: allocs_fresh_def)
  from inv obtain ps where d: "dlist m qa ps" unfolding queue_inv_dlist ..
  from insert_head_dlist [OF d n v, of j jv s] show ?thesis
    unfolding al using dlist_inv by blast
qed

lemma insert_tail_inv:
  assumes inv: "queue_inv m qa" and fr: "allocs_fresh ealloc salloc m"
  shows "\<exists>ok m'. queue_insert_tail ealloc salloc (Some qa) s m = Some (ok, m') \<and> queue_inv m' qa"
proof (cases "ealloc = None \<or> salloc = None")
  case True
  have "case ealloc of None \<Rightarrow> True | Some (a, junk) \<Rightarrow> eles m a = None"
    using fr by (simp add: allocs_fresh_def)
  from insert_tail_result(1) [OF this, of "Some qa" salloc s] True inv
  show ?thesis by blast
next
  case False
  then obtain n j v jv where al: "ealloc = Some (n, j)" "salloc = Some (v, jv)" by auto
  with fr have n: "eles m n = None" and v: "strs m v = None" by (simp_all add: allocs_fresh_def)
  from inv obtain ps where d: "dlist m qa ps" unfolding queue_inv_dlist ..
  from insert_tail_dlist [OF d n v, of j jv s] show ?thesis
    unfolding al using dlist_inv by blast
qed

lemma remove_head_inv:
  assumes inv: "queue_inv m qa" and cap: "buf = None \<or> bufsize \<noteq> 0"
  shows "\<exists>ok buf' m'. queue_remove_head (Some qa) buf bufsize m = Some (ok, buf', m') \<and>
           queue_inv m' qa"
proof -
  from inv obtain ps where d: "dlist m qa ps" unfolding queue_inv_dlist ..
  show ?thesis
  proof (cases ps)
    case Nil
    with d remove_head_empty [of m qa buf bufsize] inv show ?thesis by auto
  next
    case (Cons a as)
    with d have "dlist m qa (a # as)" by simp
    from remove_head_dlist [OF this cap] show ?thesis
      using dlist_inv by blast
  qed
qed

lemma remove_head_inv_returned:
  assumes inv: "queue_inv m qa"
    and r: "queue_remove_head (Some qa) buf bufsize m = Some (ok, buf', m')"
  shows "queue_inv m' qa"
proof (cases "buf = None \<or> bufsize \<noteq> 0")
  case True
  from remove_head_inv [OF inv True] r show ?thesis by auto
next
  case False
  then obtain b where b: "buf = Some b" "bufsize = 0" by auto
  from inv obtain ps where d: "dlist m qa ps" unfolding queue_inv_dlist ..
  show ?thesis
  proof (cases ps)
    case Nil
    with d remove_head_empty [of m qa buf bufsize] r inv show ?thesis by auto
  next
    case (Cons a as)
    with d have "dlist m qa (a # as)" by simp
    from remove_head_overrun_dlist [OF this, of b] r b show ?thesis by simp
  qed
qed

lemma reverse_inv:
  assumes inv: "queue_inv m qa"
  shows "\<exists>m'. queue_reverse (Some qa) m = Some m' \<and> queue_inv m' qa"
proof -
  from inv obtain ps where d: "dlist m qa ps" unfolding queue_inv_dlist ..
  from reverse_dlist [OF d] show ?thesis using dlist_inv by blast
qed

lemma new_inv: "\<exists>m'. queue_new (Some (qa, junk)) m = Some (Some qa, m') \<and> queue_inv m' qa"
  using queue_new_result(2) [of qa junk m] dlist_inv by blast

section \<open>The operations on the sequence of stored strings\<close>

lemma insert_tail_strings:
  assumes inv: "queue_inv m qa" and fr: "allocs_fresh ealloc salloc m"
    and r: "queue_insert_tail ealloc salloc (Some qa) s m = Some (True, m')"
  shows "queue_inv m' qa \<and> queue_strings m' qa = queue_strings m qa @ [c_str s] \<and>
         queue_size (Some qa) m' = map_option Suc (queue_size (Some qa) m)"
proof -
  have f: "case ealloc of None \<Rightarrow> True | Some (a, junk) \<Rightarrow> eles m a = None"
    using fr by (simp add: allocs_fresh_def)
  have "ealloc \<noteq> None \<and> salloc \<noteq> None"
  proof (rule ccontr)
    assume "\<not> (ealloc \<noteq> None \<and> salloc \<noteq> None)"
    then have "Some qa = None \<or> ealloc = None \<or> salloc = None" by blast
    from insert_tail_result(1) [OF f this] r show False by simp
  qed
  then obtain n j v jv where al: "ealloc = Some (n, j)" "salloc = Some (v, jv)"
    by (cases ealloc; cases salloc) auto
  with fr have n: "eles m n = None" and v: "strs m v = None" by (simp_all add: allocs_fresh_def)
  from inv obtain ps where d: "dlist m qa ps" unfolding queue_inv_dlist ..
  from insert_tail_dlist [OF d n v, of j jv s] r al
  have d': "dlist m' qa (ps @ [n])" and s: "node_str m' n = c_str s"
    and k: "map (node_str m') ps = map (node_str m) ps" by auto
  show ?thesis
    using dlist_inv [OF d'] dlist_strings [OF d'] dlist_strings [OF d] s k
      dlist_size [OF d] dlist_size [OF d']
    by simp
qed

lemma insert_head_strings:
  assumes inv: "queue_inv m qa" and fr: "allocs_fresh ealloc salloc m"
    and r: "queue_insert_head ealloc salloc (Some qa) s m = Some (True, m')"
  shows "queue_inv m' qa \<and> queue_strings m' qa = c_str s # queue_strings m qa \<and>
         queue_size (Some qa) m' = map_option Suc (queue_size (Some qa) m)"
proof -
  have f: "case ealloc of None \<Rightarrow> True | Some (a, junk) \<Rightarrow> eles m a = None"
    using fr by (simp add: allocs_fresh_def)
  have "ealloc \<noteq> None \<and> salloc \<noteq> None"
  proof (rule ccontr)
    assume "\<not> (ealloc \<noteq> None \<and> salloc \<noteq> None)"
    then have "Some qa = None \<or> ealloc = None \<or> salloc = None" by blast
    from insert_head_result(1) [OF f this] r show False by simp
  qed
  then obtain n j v jv where al: "ealloc = Some (n, j)" "salloc = Some (v, jv)"
    by (cases ealloc; cases salloc) auto
  with fr have n: "eles m n = None" and v: "strs m v = None" by (simp_all add: allocs_fresh_def)
  from inv obtain ps where d: "dlist m qa ps" unfolding queue_inv_dlist ..
  from insert_head_dlist [OF d n v, of j jv s] r al
  have d': "dlist m' qa (n # ps)" and s: "node_str m' n = c_str s"
    and k: "map (node_str m') ps = map (node_str m) ps" by auto
  show ?thesis
    using dlist_inv [OF d'] dlist_strings [OF d'] dlist_strings [OF d] s k
      dlist_size [OF d] dlist_size [OF d']
    by simp
qed

lemma remove_head_strings:
  assumes inv: "queue_inv m qa" and strs: "queue_strings m qa = x # xs"
    and big: "length x < unat bufsize"
  shows "\<exists>b' m'. queue_remove_head (Some qa) (Some b) bufsize m = Some (True, Some b', m') \<and>
           buf_string b' (unat bufsize) = x \<and> queue_inv m' qa \<and> queue_strings m' qa = xs"
proof -
  from inv_strings_Cons [OF inv strs] obtain a ps
    where d: "dlist m qa (a # ps)" and s: "node_str m a = x"
      and rest: "map (node_str m) ps = xs" by blast
  have cap: "bufsize \<noteq> 0" using big by (auto simp: unat_gt_0 [symmetric])
  define n where "n = unat (bufsize - 1)"
  have n: "unat bufsize = Suc n" using unat_pred [OF cap] by (simp add: n_def)
  have c: "Some b = None \<or> bufsize \<noteq> 0" using cap by simp
  from remove_head_dlist [OF d c] s obtain m'
    where res: "queue_remove_head (Some qa) (Some b) bufsize m = Some (True, Some (copy_out b x n), m')"
      and d': "dlist m' qa ps" and k: "map (node_str m') ps = map (node_str m) ps"
    by (auto simp: n_def)
  have "NUL \<notin> set x" using s node_str_no_NUL [of m a] by simp
  then have "buf_string (copy_out b x n) (unat bufsize) = take n x"
    using n buf_string_copy_out by simp
  moreover have "take n x = x" using big n by simp
  ultimately show ?thesis
    using res dlist_inv [OF d'] dlist_strings [OF d'] k rest by auto
qed

lemma reverse_strings:
  assumes inv: "queue_inv m qa"
  shows "\<exists>m'. queue_reverse (Some qa) m = Some m' \<and> queue_inv m' qa \<and>
           queue_strings m' qa = rev (queue_strings m qa) \<and>
           queue_nodes m' qa = map_option rev (queue_nodes m qa)"
proof -
  from inv obtain ps where d: "dlist m qa ps" unfolding queue_inv_dlist ..
  from reverse_dlist [OF d] obtain m' where r: "queue_reverse (Some qa) m = Some m'"
    and d': "dlist m' qa (rev ps)" and k: "map (node_str m') ps = map (node_str m) ps"
    by blast
  have "map (node_str m') (rev ps) = rev (map (node_str m) ps)"
    using k by (simp only: rev_map [symmetric])
  then show ?thesis
    using r dlist_inv [OF d'] dlist_strings [OF d'] dlist_strings [OF d]
      dlist_nodes [OF d'] dlist_nodes [OF d]
    by simp
qed

lemma new_strings:
  assumes "queue_new qalloc m = Some (Some qa, m0)"
  shows "queue_inv m0 qa \<and> queue_strings m0 qa = [] \<and> queue_size (Some qa) m0 = Some 0"
proof -
  from assms obtain junk where "qalloc = Some (qa, junk)"
    by (cases qalloc) (auto simp: queue_new_result(1) queue_new_def malloc_queue_def
        Option.bind_eq_Some_conv split: prod.splits)
  with queue_new_result(2) [of qa junk m] assms have d: "dlist m0 qa []" by auto
  show ?thesis using dlist_inv [OF d] dlist_strings [OF d] dlist_size [OF d] by simp
qed

lemma tail_inserts_strings:
  assumes "queue_inv m qa" and "tail_inserts (Some qa) items m = Some m1"
  shows "queue_inv m1 qa \<and>
         queue_strings m1 qa = queue_strings m qa @ map (\<lambda>(ea, sa, s). c_str s) items"
  using assms
proof (induction items arbitrary: m)
  case Nil
  then show ?case by simp
next
  case (Cons it items)
  obtain ea sa s where it: "it = (ea, sa, s)" by (cases it) auto
  from Cons.prems(2) have fr: "allocs_fresh ea sa m"
    unfolding it by (simp split: if_splits)
  from Cons.prems(2) fr obtain m' where
    i: "queue_insert_tail ea sa (Some qa) s m = Some (True, m')"
    and rest: "tail_inserts (Some qa) items m' = Some m1"
    unfolding it by (auto split: option.splits bool.splits)
  from insert_tail_strings [OF Cons.prems(1) fr i]
  have 1: "queue_inv m' qa" "queue_strings m' qa = queue_strings m qa @ [c_str s]" by simp_all
  from Cons.IH [OF 1(1) rest] 1(2) show ?case by (simp add: it)
qed

lemma remove_all_strings:
  assumes "queue_inv m qa" and "queue_strings m qa = xs" and "length bufs = length xs"
    and "\<forall>(b, n) \<in> set bufs. \<forall>x \<in> set xs. length x < unat n"
  shows "\<exists>m'. remove_all (Some qa) bufs m = Some (xs, m') \<and> queue_inv m' qa \<and>
               queue_strings m' qa = []"
  using assms
proof (induction xs arbitrary: bufs m)
  case Nil
  then show ?case by simp
next
  case (Cons x xs)
  from Cons.prems(3) obtain b n rest where bufs: "bufs = (b, n) # rest"
    by (cases bufs) auto
  have big: "length x < unat n" using Cons.prems(4) bufs by auto
  from remove_head_strings [OF Cons.prems(1,2) big, of b] obtain b' m'
    where r: "queue_remove_head (Some qa) (Some b) n m = Some (True, Some b', m')"
      and o: "buf_string b' (unat n) = x"
      and 1: "queue_inv m' qa" "queue_strings m' qa = xs"
    by blast
  have "length rest = length xs" using Cons.prems(3) bufs by simp
  moreover have "\<forall>(b, n) \<in> set rest. \<forall>x \<in> set xs. length x < unat n"
    using Cons.prems(4) bufs by auto
  ultimately obtain m'' where "remove_all (Some qa) rest m' = Some (xs, m'')"
    "queue_inv m'' qa" "queue_strings m'' qa = []"
    using Cons.IH [OF 1] by blast
  then show ?case using r o bufs by simp
qed

section \<open>Reversal: involution and frame\<close>

lemma swap_links_twice [simp]: "swap_links (swap_links e) = e"
  by (simp add: swap_links_def)

lemma swap_all_twice: "set ps' = set ps \<Longrightarrow> swap_all ps' (swap_all ps h) = h"
  by (auto simp: swap_all_def fun_eq_iff option.map_comp comp_def option.map_ident)

lemma relinked_refl: "relinked m m"
  by (simp add: relinked_def)

lemma relinked_step:
  assumes "eles m c = Some e"
    and "relinked (m\<lparr>eles := (eles m)(c \<mapsto> e\<lparr>e_next := x, e_prev := y\<rparr>)\<rparr>) m'"
  shows "relinked m m'"
  using assms unfolding relinked_def by (auto split: if_splits)

lemma reverse_loop_frame:
  assumes a: "reverse_loop p m = Some m'"
  shows "queues m' = queues m \<and> relinked m m'"
proof (rule reverse_loop.raw_induct [where P = "\<lambda>p m m'. queues m' = queues m \<and> relinked m m'", OF _ a],
    goal_cases)
  case (1 loop current m y)
  show ?case
  proof (cases current)
    case None
    with 1(2) show ?thesis by (simp add: relinked_refl)
  next
    case (Some c)
    with 1(2) obtain e where e: "eles m c = Some e"
      and rest: "loop (e_next e) (m\<lparr>eles := (eles m)(c \<mapsto> e\<lparr>e_next := e_prev e, e_prev := e_next e\<rparr>)\<rparr>) = Some y"
      by (auto simp: upd_ele_def split: option.splits)
    from 1(1) [OF rest] have q: "queues y = queues m"
      and l: "relinked (m\<lparr>eles := (eles m)(c \<mapsto> e\<lparr>e_next := e_prev e, e_prev := e_next e\<rparr>)\<rparr>) y"
      by simp_all
    from q relinked_step [OF e l] show ?thesis by simp
  qed
qed

lemma queue_reverse_cases:
  assumes "queue_reverse (Some qa) m = Some m'"
  obtains (unchanged) "m' = m"
  | (swapped) qs m1 qs1 r where "queues m qa = Some qs" "reverse_loop (q_head qs) m = Some m1"
      "queues m1 qa = Some qs1" "q_size r = q_size qs1"
      "queues m' = (queues m1)(qa \<mapsto> r)" "eles m' = eles m1" "strs m' = strs m1"
proof -
  from assms obtain qs where q: "queues m qa = Some qs"
    by (auto simp: queue_reverse_def Option.bind_eq_Some_conv)
  show ?thesis
  proof (cases "q_head qs")
    case None
    with assms q have "m' = m" by (simp add: queue_reverse_def)
    then show ?thesis by (rule unchanged)
  next
    case (Some h)
    with assms q obtain e where e: "eles m h = Some e"
      by (auto simp: queue_reverse_def Option.bind_eq_Some_conv)
    show ?thesis
    proof (cases "e_next e")
      case None
      with assms q Some e have "m' = m" by (simp add: queue_reverse_def)
      then show ?thesis by (rule unchanged)
    next
      case (Some n)
      with assms q \<open>q_head qs = Some h\<close> e obtain m1 qs1 where
        l: "reverse_loop (Some h) m = Some m1" and q1: "queues m1 qa = Some qs1"
        and m': "m' = m1\<lparr>queues := (queues m1)(qa \<mapsto> qs1\<lparr>q_tail := q_head qs1, q_head := q_tail qs1\<rparr>)\<rparr>"
        by (auto simp: queue_reverse_def Option.bind_eq_Some_conv upd_queue_def)
      have sz: "q_size (qs1\<lparr>q_tail := q_head qs1, q_head := q_tail qs1\<rparr>) = q_size qs1" by simp
      have lp: "reverse_loop (q_head qs) m = Some m1" using l \<open>q_head qs = Some h\<close> by simp
      have mq: "queues m' = (queues m1)(qa \<mapsto> qs1\<lparr>q_tail := q_head qs1, q_head := q_tail qs1\<rparr>)"
        and me: "eles m' = eles m1" and ms: "strs m' = strs m1" using m' by simp_all
      show ?thesis by (rule swapped [OF q lp q1 sz mq me ms])
    qed
  qed
qed

section \<open>Counting along a run\<close>





section \<open>Facts about the concrete memories\<close>

lemmas ex_defs = mem0_def ex_qjunk_def ex_junk_def ex_buf_def ex_m0_def
lemmas run_defs = queue_new_def queue_insert_head_def queue_insert_tail_def queue_remove_head_def
  queue_reverse_def malloc_queue_def op_defs strncpy_def strncpy_bytes_def store_byte_def
  allocs_fresh_def strlen_def c_str_def

lemma ex_new: "queue_new (Some (0, ex_qjunk)) mem0 = Some (Some 0, ex_m0)"
  by (simp add: ex_defs run_defs)

lemma ex_mem2_inv: "queue_inv ex_mem2 0"
  by (simp add: queue_inv_def ex_mem2_def payload_ok_def payload_ptr_def numeral_2_eq_2)


lemma ex_fresh: "allocs_fresh (Some (7, ex_junk)) (Some (8, ex_buf)) ex_mem"
  by (simp add: allocs_fresh_def ex_mem_def)

lemma ex_inserts:
  "\<exists>m1. allocs_fresh (Some (1, ex_junk)) (Some (11, ex_buf)) ex_m0 \<and>
   queue_insert_tail (Some (1, ex_junk)) (Some (11, ex_buf)) (Some 0) ''a'' ex_m0 = Some (True, m1) \<and>
   (\<exists>m2. allocs_fresh (Some (2, ex_junk)) (Some (12, ex_buf)) m1 \<and>
   queue_insert_tail (Some (2, ex_junk)) (Some (12, ex_buf)) (Some 0) ''b'' m1 = Some (True, m2) \<and>
   (\<exists>m3. allocs_fresh (Some (3, ex_junk)) (Some (13, ex_buf)) m2 \<and>
   queue_insert_tail (Some (3, ex_junk)) (Some (13, ex_buf)) (Some 0) ''c'' m2 = Some (True, m3)))"
  by (simp add: ex_defs run_defs)

section \<open>Claims\<close>

text \<open>
  C1 (as amended). On a queue that satisfies the invariant and whose first string is
  \<open>s\<close>, \<^verbatim>\<open>queue_remove_head\<close> with a buffer of capacity \<open>bufsize \<ge> 1\<close> succeeds, leaves
  every byte at an offset of \<open>bufsize\<close> or more as it was, writes the first
  \<open>min (length s) (bufsize - 1)\<close> characters of \<open>s\<close> at the start of the buffer and a
  \<open>NUL\<close> right after them; the C string then found in the buffer is \<open>s\<close> cut to
  \<open>bufsize - 1\<close> characters. A string longer than \<open>bufsize - 1\<close> is truncated, the
  call does not fail.
\<close>

theorem remove_head_truncating_copy:
  assumes inv: "queue_inv m qa" and strs: "queue_strings m qa = s # rest" and cap: "bufsize \<noteq> 0"
  shows "\<exists>b' m'. queue_remove_head (Some qa) (Some b) bufsize m = Some (True, Some b', m') \<and>
     (\<forall>i. unat bufsize \<le> i \<longrightarrow> b' i = b i) \<and>
     (\<forall>i < min (length s) (unat bufsize - 1). b' i = s ! i) \<and>
     b' (min (length s) (unat bufsize - 1)) = NUL \<and>
     buf_string b' (unat bufsize) = take (unat bufsize - 1) s"
proof -
  from inv_strings_Cons [OF inv strs] obtain a ps
    where d: "dlist m qa (a # ps)" and s: "node_str m a = s" by blast
  define n where "n = unat (bufsize - 1)"
  have n: "unat bufsize = Suc n" "unat bufsize - 1 = n"
    using unat_pred [OF cap] by (simp_all add: n_def)
  have c: "Some b = None \<or> bufsize \<noteq> 0" using cap by simp
  from remove_head_dlist [OF d c] s obtain m'
    where res: "queue_remove_head (Some qa) (Some b) bufsize m = Some (True, Some (copy_out b s n), m')"
    by (auto simp: n_def)
  have nonul: "NUL \<notin> set s"
    using s c_str_no_NUL by (auto simp: node_str_def split: option.splits)
  have "\<forall>i. unat bufsize \<le> i \<longrightarrow> copy_out b s n i = b i"
    using n by (simp add: copy_out_props(1))
  moreover have "\<forall>i < min (length s) (unat bufsize - 1). copy_out b s n i = s ! i"
    using n copy_out_props(2) by simp
  moreover have "copy_out b s n (min (length s) (unat bufsize - 1)) = NUL"
    using n copy_out_props(3) by simp
  moreover have "buf_string (copy_out b s n) (unat bufsize) = take (unat bufsize - 1) s"
    using n buf_string_copy_out [OF nonul] by simp
  ultimately show ?thesis using res by blast
qed

theorem remove_head_truncating_copy_witness:
  "queue_inv ex_mem 0 \<and> queue_strings ex_mem 0 = [''ab''] \<and> (2 :: size_t) \<noteq> 0 \<and>
   (\<exists>b' m'. queue_remove_head (Some 0) (Some ex_buf) 2 ex_mem = Some (True, Some b', m') \<and>
     (\<forall>i. unat (2 :: size_t) \<le> i \<longrightarrow> b' i = ex_buf i) \<and>
     (\<forall>i < min (length ''ab'') (unat (2 :: size_t) - 1). b' i = ''ab'' ! i) \<and>
     b' (min (length ''ab'') (unat (2 :: size_t) - 1)) = NUL \<and>
     buf_string b' (unat (2 :: size_t)) = take (unat (2 :: size_t) - 1) ''ab'')"
proof -
  have c: "(2 :: size_t) \<noteq> 0" by simp
  show ?thesis
    using remove_head_truncating_copy [OF ex_mem_inv ex_mem_strings c, of ex_buf]
      ex_mem_inv ex_mem_strings c
    by blast
qed

text \<open>
  C1 as stated also covers \<open>bufsize = 0\<close>. There \<^verbatim>\<open>bufsize - 1\<close> wraps around to the
  largest \<^verbatim>\<open>size_t\<close>, and \<^verbatim>\<open>strncpy\<close> is asked to write that many bytes into a buffer of
  capacity 0: the bytes it writes at offsets 0 and 5, both beyond the capacity, differ
  from what was there, and the call overruns the buffer instead of returning.
\<close>

theorem remove_head_bufsize_zero_counterexample:
  "queue_inv ex_mem 0 \<and> queue_strings ex_mem 0 = [''ab''] \<and>
   unat (0 - 1 :: size_t) = 18446744073709551615 \<and>
   strncpy_bytes ex_buf (''ab'' @ [NUL]) (unat (0 - 1 :: size_t)) 0 = CHR ''a'' \<and>
   ex_buf 0 = CHR ''x'' \<and>
   strncpy_bytes ex_buf (''ab'' @ [NUL]) (unat (0 - 1 :: size_t)) 5 = NUL \<and>
   ex_buf 5 = CHR ''x'' \<and>
   queue_remove_head (Some 0) (Some ex_buf) 0 ex_mem = None"
proof -
  have n: "unat (- 1 :: size_t) = 18446744073709551615"
    by (simp add: unsigned_minus_1_eq_mask mask_eq_exp_minus_1)
  have "strncpy_bytes ex_buf (''ab'' @ [NUL]) (unat (0 - 1 :: size_t)) 0 = CHR ''a''"
    "strncpy_bytes ex_buf (''ab'' @ [NUL]) (unat (0 - 1 :: size_t)) 5 = NUL"
    by (simp_all add: strncpy_bytes_def strlen_def c_str_def n)
  moreover have "queue_remove_head (Some 0) (Some ex_buf) 0 ex_mem = None"
    by (simp add: queue_remove_head_def ex_mem_def op_defs strncpy_def n)
  ultimately show ?thesis using ex_mem_inv ex_mem_strings n by (simp add: ex_buf_def)
qed

text \<open>
  C2. When \<^verbatim>\<open>malloc\<close> returns fresh memory, \<^verbatim>\<open>queue_insert_head\<close> and
  \<^verbatim>\<open>queue_insert_tail\<close> report failure only if the handle is \<^verbatim>\<open>NULL\<close>, the node
  allocation failed or the string allocation failed, and in each of these cases they do
  report failure; the memory after a failed call is the memory before it. In
  particular the node that was allocated before the string allocation failed is not
  allocated any more.
\<close>

theorem insert_failure_leaves_memory:
  assumes "allocs_fresh ealloc salloc m"
  shows "(queue_insert_head ealloc salloc q s m = Some (False, m') \<longrightarrow>
           (q = None \<or> ealloc = None \<or> salloc = None) \<and> m' = m \<and>
           (\<forall>a junk. ealloc = Some (a, junk) \<longrightarrow> eles m' a = None)) \<and>
         (queue_insert_tail ealloc salloc q s m = Some (False, m') \<longrightarrow>
           (q = None \<or> ealloc = None \<or> salloc = None) \<and> m' = m \<and>
           (\<forall>a junk. ealloc = Some (a, junk) \<longrightarrow> eles m' a = None)) \<and>
         (q = None \<or> ealloc = None \<or> salloc = None \<longrightarrow>
           queue_insert_head ealloc salloc q s m = Some (False, m) \<and>
           queue_insert_tail ealloc salloc q s m = Some (False, m))"
proof -
  have f: "case ealloc of None \<Rightarrow> True | Some (a, junk) \<Rightarrow> eles m a = None"
    using assms by (simp add: allocs_fresh_def)
  then have g: "\<forall>a junk. ealloc = Some (a, junk) \<longrightarrow> eles m a = None" by auto
  show ?thesis
  proof (intro conjI impI)
    assume r: "queue_insert_head ealloc salloc q s m = Some (False, m')"
    from insert_head_result(2) [OF f r]
    show "q = None \<or> ealloc = None \<or> salloc = None" and "m' = m" by simp_all
    then show "\<forall>a junk. ealloc = Some (a, junk) \<longrightarrow> eles m' a = None" using g by simp
  next
    assume r: "queue_insert_tail ealloc salloc q s m = Some (False, m')"
    from insert_tail_result(2) [OF f r]
    show "q = None \<or> ealloc = None \<or> salloc = None" and "m' = m" by simp_all
    then show "\<forall>a junk. ealloc = Some (a, junk) \<longrightarrow> eles m' a = None" using g by simp
  next
    assume c: "q = None \<or> ealloc = None \<or> salloc = None"
    show "queue_insert_head ealloc salloc q s m = Some (False, m)"
      by (rule insert_head_result(1) [OF f c])
    show "queue_insert_tail ealloc salloc q s m = Some (False, m)"
      by (rule insert_tail_result(1) [OF f c])
  qed
qed

theorem insert_failure_leaves_memory_witness:
  "allocs_fresh (Some (7, ex_junk)) None ex_mem \<and>
   queue_insert_head (Some (7, ex_junk)) None (Some 0) ''hi'' ex_mem = Some (False, ex_mem) \<and>
   queue_insert_tail (Some (7, ex_junk)) None (Some 0) ''hi'' ex_mem = Some (False, ex_mem) \<and>
   eles ex_mem 7 = None"
proof -
  have f: "allocs_fresh (Some (7, ex_junk)) None ex_mem"
    by (simp add: allocs_fresh_def ex_mem_def)
  have n: "eles ex_mem 7 = None" by (simp add: ex_mem_def)
  from insert_failure_leaves_memory [OF f, where q = "Some 0" and s = "''hi''" and m' = ex_mem]
  have "queue_insert_head (Some (7, ex_junk)) None (Some 0) ''hi'' ex_mem = Some (False, ex_mem)"
    and "queue_insert_tail (Some (7, ex_junk)) None (Some 0) ''hi'' ex_mem = Some (False, ex_mem)"
    by blast+
  then show ?thesis using f n by (simp only: simp_thms)
qed




text \<open>
  C4. \<^verbatim>\<open>queue_new\<close> establishes the invariant, and \<^verbatim>\<open>queue_insert_head\<close>,
  \<^verbatim>\<open>queue_insert_tail\<close>, \<^verbatim>\<open>queue_remove_head\<close> and \<^verbatim>\<open>queue_reverse\<close> preserve it: the
  insertions whether they succeed or fail, given that \<^verbatim>\<open>malloc\<close> returns fresh memory;
  \<^verbatim>\<open>queue_remove_head\<close> whenever it returns, and it returns when no buffer is passed or
  \<^verbatim>\<open>bufsize\<close> is at least 1. The invariant implies the structural properties: the
  count is zero exactly when \<^verbatim>\<open>head\<close> is \<^verbatim>\<open>NULL\<close>, exactly when \<^verbatim>\<open>tail\<close> is \<^verbatim>\<open>NULL\<close>; and
  for every node \<open>a\<close> of the queue, if \<open>a.next = b\<close> then \<open>b.prev = a\<close>, and the other way
  round.
\<close>

theorem operations_preserve_structure:
  "(\<exists>m'. queue_new (Some (qa, qjunk)) m0 = Some (Some qa, m') \<and>
       queue_inv m' qa \<and> structure_ok m' qa) \<and>
   (queue_inv m qa \<longrightarrow> structure_ok m qa) \<and>
   (queue_inv m qa \<and> allocs_fresh ealloc salloc m \<longrightarrow>
      (\<exists>ok m'. queue_insert_head ealloc salloc (Some qa) s m = Some (ok, m') \<and>
         queue_inv m' qa \<and> structure_ok m' qa)) \<and>
   (queue_inv m qa \<and> allocs_fresh ealloc salloc m \<longrightarrow>
      (\<exists>ok m'. queue_insert_tail ealloc salloc (Some qa) s m = Some (ok, m') \<and>
         queue_inv m' qa \<and> structure_ok m' qa)) \<and>
   (queue_inv m qa \<and> queue_remove_head (Some qa) buf bufsize m = Some (rok, rbuf, rm) \<longrightarrow>
      queue_inv rm qa \<and> structure_ok rm qa) \<and>
   (queue_inv m qa \<and> (buf = None \<or> bufsize \<noteq> 0) \<longrightarrow>
      (\<exists>ok buf' m'. queue_remove_head (Some qa) buf bufsize m = Some (ok, buf', m') \<and>
         queue_inv m' qa \<and> structure_ok m' qa)) \<and>
   (queue_inv m qa \<longrightarrow>
      (\<exists>m'. queue_reverse (Some qa) m = Some m' \<and> queue_inv m' qa \<and> structure_ok m' qa))"
proof (intro conjI impI)
  show "\<exists>m'. queue_new (Some (qa, qjunk)) m0 = Some (Some qa, m') \<and>
       queue_inv m' qa \<and> structure_ok m' qa"
    using new_inv [of qa qjunk m0] inv_structure by blast
next
  assume "queue_inv m qa"
  then show "structure_ok m qa" by (rule inv_structure)
next
  assume "queue_inv m qa \<and> allocs_fresh ealloc salloc m"
  then show "\<exists>ok m'. queue_insert_head ealloc salloc (Some qa) s m = Some (ok, m') \<and>
         queue_inv m' qa \<and> structure_ok m' qa"
    using insert_head_inv [of m qa ealloc salloc s] inv_structure by blast
next
  assume "queue_inv m qa \<and> allocs_fresh ealloc salloc m"
  then show "\<exists>ok m'. queue_insert_tail ealloc salloc (Some qa) s m = Some (ok, m') \<and>
         queue_inv m' qa \<and> structure_ok m' qa"
    using insert_tail_inv [of m qa ealloc salloc s] inv_structure by blast
next
  assume a: "queue_inv m qa \<and> queue_remove_head (Some qa) buf bufsize m = Some (rok, rbuf, rm)"
  then have "queue_inv rm qa" using remove_head_inv_returned by blast
  then show "queue_inv rm qa" and "structure_ok rm qa" by (simp_all add: inv_structure)
next
  assume "queue_inv m qa \<and> (buf = None \<or> bufsize \<noteq> 0)"
  then show "\<exists>ok buf' m'. queue_remove_head (Some qa) buf bufsize m = Some (ok, buf', m') \<and>
         queue_inv m' qa \<and> structure_ok m' qa"
    using remove_head_inv [of m qa buf bufsize] inv_structure by blast
next
  assume "queue_inv m qa"
  then show "\<exists>m'. queue_reverse (Some qa) m = Some m' \<and> queue_inv m' qa \<and> structure_ok m' qa"
    using reverse_inv [of m qa] inv_structure by blast
qed

theorem operations_preserve_structure_witness:
  "queue_inv ex_mem2 0 \<and> allocs_fresh (Some (7, ex_junk)) (Some (8, ex_buf)) ex_mem2 \<and>
   (Some ex_buf = None \<or> (2 :: size_t) \<noteq> 0) \<and>
   structure_ok ex_mem2 0 \<and>
   (\<exists>m'. queue_new (Some (0, ex_qjunk)) mem0 = Some (Some 0, m') \<and>
       queue_inv m' 0 \<and> structure_ok m' 0) \<and>
   (\<exists>ok m'. queue_insert_head (Some (7, ex_junk)) (Some (8, ex_buf)) (Some 0) ''hi'' ex_mem2 =
       Some (ok, m') \<and> queue_inv m' 0 \<and> structure_ok m' 0) \<and>
   (\<exists>ok m'. queue_insert_tail (Some (7, ex_junk)) (Some (8, ex_buf)) (Some 0) ''hi'' ex_mem2 =
       Some (ok, m') \<and> queue_inv m' 0 \<and> structure_ok m' 0) \<and>
   (\<exists>ok buf' m'. queue_remove_head (Some 0) (Some ex_buf) 2 ex_mem2 = Some (ok, buf', m') \<and>
       queue_inv m' 0 \<and> structure_ok m' 0) \<and>
   (\<exists>m'. queue_reverse (Some 0) ex_mem2 = Some m' \<and> queue_inv m' 0 \<and> structure_ok m' 0)"
proof -
  have f: "allocs_fresh (Some (7, ex_junk)) (Some (8, ex_buf)) ex_mem2"
    by (simp add: allocs_fresh_def ex_mem2_def)
  have c: "Some ex_buf = None \<or> (2 :: size_t) \<noteq> 0" by simp
  note t = operations_preserve_structure [where qa = 0 and qjunk = ex_qjunk and ?m0.0 = mem0
      and m = ex_mem2 and ealloc = "Some (7, ex_junk)" and salloc = "Some (8, ex_buf)"
      and s = "''hi''" and buf = "Some ex_buf" and bufsize = 2]
  from t ex_mem2_inv c obtain ok buf' m'
    where r: "queue_remove_head (Some 0) (Some ex_buf) 2 ex_mem2 = Some (ok, buf', m')"
    by blast
  from operations_preserve_structure [where qa = 0 and m = ex_mem2 and buf = "Some ex_buf"
      and bufsize = 2 and rok = ok and rbuf = buf' and rm = m'] ex_mem2_inv r
  have "queue_inv m' 0 \<and> structure_ok m' 0" by blast
  with r have "\<exists>ok buf' m'. queue_remove_head (Some 0) (Some ex_buf) 2 ex_mem2 =
      Some (ok, buf', m') \<and> queue_inv m' 0 \<and> structure_ok m' 0" by blast
  then show ?thesis using t ex_mem2_inv f c by (simp only: simp_thms)
qed

text \<open>
  C5. On a queue fresh from \<^verbatim>\<open>queue_new\<close>, after three successful calls of
  \<^verbatim>\<open>queue_insert_tail\<close> with \<open>a\<close>, \<open>b\<close>, \<open>c\<close>, three calls of \<^verbatim>\<open>queue_remove_head\<close> with
  buffers larger than the strings succeed and leave in their buffers the C strings of
  \<open>a\<close>, then \<open>b\<close>, then \<open>c\<close> (which are \<open>a\<close>, \<open>b\<close>, \<open>c\<close> themselves when these contain no
  \<open>NUL\<close>).
\<close>

theorem fifo_order:
  assumes new: "queue_new qalloc m = Some (Some qa, m0)"
    and f1: "allocs_fresh e1 s1 m0" and i1: "queue_insert_tail e1 s1 (Some qa) a m0 = Some (True, m1)"
    and f2: "allocs_fresh e2 s2 m1" and i2: "queue_insert_tail e2 s2 (Some qa) b m1 = Some (True, m2)"
    and f3: "allocs_fresh e3 s3 m2" and i3: "queue_insert_tail e3 s3 (Some qa) c m2 = Some (True, m3)"
    and big: "strlen a < unat n1" "strlen b < unat n2" "strlen c < unat n3"
  shows "\<exists>b1' m4 b2' m5 b3' m6.
     queue_remove_head (Some qa) (Some b1) n1 m3 = Some (True, Some b1', m4) \<and>
     queue_remove_head (Some qa) (Some b2) n2 m4 = Some (True, Some b2', m5) \<and>
     queue_remove_head (Some qa) (Some b3) n3 m5 = Some (True, Some b3', m6) \<and>
     buf_string b1' (unat n1) = c_str a \<and>
     buf_string b2' (unat n2) = c_str b \<and>
     buf_string b3' (unat n3) = c_str c \<and>
     (NUL \<notin> set a \<and> NUL \<notin> set b \<and> NUL \<notin> set c \<longrightarrow>
        buf_string b1' (unat n1) = a \<and> buf_string b2' (unat n2) = b \<and>
        buf_string b3' (unat n3) = c)"
proof -
  note 0 = new_strings [OF new]
  have l1: "length (c_str a) < unat n1" and l2: "length (c_str b) < unat n2"
    and l3: "length (c_str c) < unat n3" using big by simp_all
  from insert_tail_strings [OF _ f1 i1] 0
  have 1: "queue_inv m1 qa" "queue_strings m1 qa = [c_str a]" by simp_all
  from insert_tail_strings [OF 1(1) f2 i2] 1
  have 2: "queue_inv m2 qa" "queue_strings m2 qa = [c_str a, c_str b]" by simp_all
  from insert_tail_strings [OF 2(1) f3 i3] 2
  have 3: "queue_inv m3 qa" "queue_strings m3 qa = [c_str a, c_str b, c_str c]" by simp_all
  from remove_head_strings [OF 3 l1, of b1] obtain b1' m4
    where r1: "queue_remove_head (Some qa) (Some b1) n1 m3 = Some (True, Some b1', m4)"
      and o1: "buf_string b1' (unat n1) = c_str a"
      and 4: "queue_inv m4 qa" "queue_strings m4 qa = [c_str b, c_str c]"
    by auto
  from remove_head_strings [OF 4 l2, of b2] obtain b2' m5
    where r2: "queue_remove_head (Some qa) (Some b2) n2 m4 = Some (True, Some b2', m5)"
      and o2: "buf_string b2' (unat n2) = c_str b"
      and 5: "queue_inv m5 qa" "queue_strings m5 qa = [c_str c]"
    by auto
  from remove_head_strings [OF 5 l3, of b3] obtain b3' m6
    where r3: "queue_remove_head (Some qa) (Some b3) n3 m5 = Some (True, Some b3', m6)"
      and o3: "buf_string b3' (unat n3) = c_str c"
    by auto
  have id: "NUL \<notin> set a \<and> NUL \<notin> set b \<and> NUL \<notin> set c \<longrightarrow>
        buf_string b1' (unat n1) = a \<and> buf_string b2' (unat n2) = b \<and>
        buf_string b3' (unat n3) = c"
    using o1 o2 o3 by (simp add: c_str_id)
  show ?thesis
    by (intro exI conjI) (rule r1 r2 r3 o1 o2 o3 id)+
qed

theorem fifo_order_witness:
  "\<exists>m1 m2 m3.
     queue_new (Some (0, ex_qjunk)) mem0 = Some (Some 0, ex_m0) \<and>
     allocs_fresh (Some (1, ex_junk)) (Some (11, ex_buf)) ex_m0 \<and>
     queue_insert_tail (Some (1, ex_junk)) (Some (11, ex_buf)) (Some 0) ''a'' ex_m0 = Some (True, m1) \<and>
     allocs_fresh (Some (2, ex_junk)) (Some (12, ex_buf)) m1 \<and>
     queue_insert_tail (Some (2, ex_junk)) (Some (12, ex_buf)) (Some 0) ''b'' m1 = Some (True, m2) \<and>
     allocs_fresh (Some (3, ex_junk)) (Some (13, ex_buf)) m2 \<and>
     queue_insert_tail (Some (3, ex_junk)) (Some (13, ex_buf)) (Some 0) ''c'' m2 = Some (True, m3) \<and>
     strlen ''a'' < unat (8 :: size_t) \<and> strlen ''b'' < unat (8 :: size_t) \<and>
     strlen ''c'' < unat (8 :: size_t) \<and>
     (\<exists>b1' m4 b2' m5 b3' m6.
        queue_remove_head (Some 0) (Some ex_buf) 8 m3 = Some (True, Some b1', m4) \<and>
        queue_remove_head (Some 0) (Some ex_buf) 8 m4 = Some (True, Some b2', m5) \<and>
        queue_remove_head (Some 0) (Some ex_buf) 8 m5 = Some (True, Some b3', m6) \<and>
        buf_string b1' (unat (8 :: size_t)) = ''a'' \<and>
        buf_string b2' (unat (8 :: size_t)) = ''b'' \<and>
        buf_string b3' (unat (8 :: size_t)) = ''c'')"
proof -
  from ex_inserts obtain m1 m2 m3
    where f1: "allocs_fresh (Some (1, ex_junk)) (Some (11, ex_buf)) ex_m0"
      and i1: "queue_insert_tail (Some (1, ex_junk)) (Some (11, ex_buf)) (Some 0) ''a'' ex_m0 = Some (True, m1)"
      and f2: "allocs_fresh (Some (2, ex_junk)) (Some (12, ex_buf)) m1"
      and i2: "queue_insert_tail (Some (2, ex_junk)) (Some (12, ex_buf)) (Some 0) ''b'' m1 = Some (True, m2)"
      and f3: "allocs_fresh (Some (3, ex_junk)) (Some (13, ex_buf)) m2"
      and i3: "queue_insert_tail (Some (3, ex_junk)) (Some (13, ex_buf)) (Some 0) ''c'' m2 = Some (True, m3)"
    by blast
  have big: "strlen ''a'' < unat (8 :: size_t)" "strlen ''b'' < unat (8 :: size_t)"
    "strlen ''c'' < unat (8 :: size_t)"
    by (simp_all add: strlen_def c_str_def)
  have nn: "NUL \<notin> set ''a'' \<and> NUL \<notin> set ''b'' \<and> NUL \<notin> set ''c''" by simp
  from fifo_order [OF ex_new f1 i1 f2 i2 f3 i3 big, of ex_buf ex_buf ex_buf] nn
  obtain b1' m4 b2' m5 b3' m6 where
    "queue_remove_head (Some 0) (Some ex_buf) 8 m3 = Some (True, Some b1', m4)"
    "queue_remove_head (Some 0) (Some ex_buf) 8 m4 = Some (True, Some b2', m5)"
    "queue_remove_head (Some 0) (Some ex_buf) 8 m5 = Some (True, Some b3', m6)"
    "buf_string b1' (unat (8 :: size_t)) = ''a''"
    "buf_string b2' (unat (8 :: size_t)) = ''b''"
    "buf_string b3' (unat (8 :: size_t)) = ''c''"
    by blast
  then show ?thesis using ex_new f1 i1 f2 i2 f3 i3 big by blast
qed

text \<open>
  C6. On any queue satisfying the invariant, after a successful \<^verbatim>\<open>queue_insert_head\<close> of
  \<open>s\<close>, a \<^verbatim>\<open>queue_remove_head\<close> into a buffer of capacity at least \<open>strlen s + 1\<close>
  succeeds and leaves the C string of \<open>s\<close> in the buffer, untruncated (\<open>s\<close> itself when
  it contains no \<open>NUL\<close>); the queue holds the strings it held before.
\<close>

theorem insert_head_remove_roundtrip:
  assumes inv: "queue_inv m qa" and fr: "allocs_fresh ealloc salloc m"
    and ins: "queue_insert_head ealloc salloc (Some qa) s m = Some (True, m1)"
    and cap: "strlen s + 1 \<le> unat bufsize"
  shows "\<exists>b' m2. queue_remove_head (Some qa) (Some b) bufsize m1 = Some (True, Some b', m2) \<and>
           buf_string b' (unat bufsize) = c_str s \<and>
           (NUL \<notin> set s \<longrightarrow> buf_string b' (unat bufsize) = s) \<and>
           queue_inv m2 qa \<and> queue_strings m2 qa = queue_strings m qa"
proof -
  from insert_head_strings [OF inv fr ins]
  have 1: "queue_inv m1 qa" "queue_strings m1 qa = c_str s # queue_strings m qa" by simp_all
  have "length (c_str s) < unat bufsize" using cap by simp
  from remove_head_strings [OF 1 this, of b] obtain b' m2
    where r: "queue_remove_head (Some qa) (Some b) bufsize m1 = Some (True, Some b', m2)"
      and o: "buf_string b' (unat bufsize) = c_str s"
      and 2: "queue_inv m2 qa" "queue_strings m2 qa = queue_strings m qa"
    by blast
  have id: "NUL \<notin> set s \<longrightarrow> buf_string b' (unat bufsize) = s"
    using o by (simp add: c_str_id)
  show ?thesis
    by (intro exI conjI) (rule r o id 2)+
qed

theorem insert_head_remove_roundtrip_witness:
  "\<exists>m1. queue_inv ex_mem 0 \<and> allocs_fresh (Some (7, ex_junk)) (Some (8, ex_buf)) ex_mem \<and>
     queue_insert_head (Some (7, ex_junk)) (Some (8, ex_buf)) (Some 0) ''hi'' ex_mem =
       Some (True, m1) \<and>
     strlen ''hi'' + 1 \<le> unat (3 :: size_t) \<and>
     (\<exists>b' m2. queue_remove_head (Some 0) (Some ex_buf) 3 m1 = Some (True, Some b', m2) \<and>
        buf_string b' (unat (3 :: size_t)) = ''hi'' \<and>
        queue_inv m2 0 \<and> queue_strings m2 0 = queue_strings ex_mem 0)"
proof -
  have "\<exists>m1. queue_insert_head (Some (7, ex_junk)) (Some (8, ex_buf)) (Some 0) ''hi'' ex_mem =
       Some (True, m1)"
    by (simp add: ex_mem_def ex_defs run_defs)
  then obtain m1 where ins: "queue_insert_head (Some (7, ex_junk)) (Some (8, ex_buf)) (Some 0) ''hi'' ex_mem =
       Some (True, m1)" ..
  have cap: "strlen ''hi'' + 1 \<le> unat (3 :: size_t)" by (simp add: strlen_def c_str_def)
  have nn: "NUL \<notin> set ''hi''" by simp
  from insert_head_remove_roundtrip [OF ex_mem_inv ex_fresh ins cap, of ex_buf] nn
  obtain b' m2 where "queue_remove_head (Some 0) (Some ex_buf) 3 m1 = Some (True, Some b', m2)"
    "buf_string b' (unat (3 :: size_t)) = ''hi''" "queue_inv m2 0"
    "queue_strings m2 0 = queue_strings ex_mem 0"
    by blast
  then show ?thesis using ex_mem_inv ex_fresh ins cap by blast
qed

text \<open>
  C7. For a queue fresh from \<^verbatim>\<open>queue_new\<close> and filled by successful tail insertions of
  \<open>x1, ..., xn\<close>, \<^verbatim>\<open>queue_reverse\<close> returns; it has swapped \<^verbatim>\<open>next\<close> and \<^verbatim>\<open>prev\<close> in every
  node of the queue and \<^verbatim>\<open>head\<close> and \<^verbatim>\<open>tail\<close> in the queue; and \<open>n\<close> removals with
  buffers larger than the strings then yield \<open>xn, ..., x1\<close>.
\<close>

theorem reverse_then_remove_all:
  assumes new: "queue_new qalloc m = Some (Some qa, m0)"
    and build: "tail_inserts (Some qa) items m0 = Some m1"
    and len: "length bufs = length items"
    and big: "\<forall>(b, n) \<in> set bufs. \<forall>(ea, sa, s) \<in> set items. strlen s < unat n"
  shows "\<exists>m2 m3 qs ps. queue_reverse (Some qa) m1 = Some m2 \<and>
           queues m1 qa = Some qs \<and> queue_nodes m1 qa = Some ps \<and>
           eles m2 = swap_all ps (eles m1) \<and>
           queues m2 = (queues m1)(qa \<mapsto> qs\<lparr>q_tail := q_head qs, q_head := q_tail qs\<rparr>) \<and>
           remove_all (Some qa) bufs m2 = Some (rev (map (\<lambda>(ea, sa, s). c_str s) items), m3) \<and>
           ((\<forall>(ea, sa, s) \<in> set items. NUL \<notin> set s) \<longrightarrow>
              remove_all (Some qa) bufs m2 = Some (rev (map (\<lambda>(ea, sa, s). s) items), m3))"
proof -
  let ?xs = "map (\<lambda>(ea, sa, s). c_str s) items"
  note 0 = new_strings [OF new]
  from tail_inserts_strings [OF _ build] 0
  have 1: "queue_inv m1 qa" "queue_strings m1 qa = ?xs" by simp_all
  from 1(1) obtain ps where d: "dlist m1 qa ps" unfolding queue_inv_dlist ..
  from reverse_effect [OF d] obtain m2 qs where r: "queue_reverse (Some qa) m1 = Some m2"
    and q: "queues m1 qa = Some qs"
    and mq: "queues m2 = (queues m1)(qa \<mapsto> qs\<lparr>q_tail := q_head qs, q_head := q_tail qs\<rparr>)"
    and me: "eles m2 = swap_all ps (eles m1)"
    by blast
  from reverse_strings [OF 1(1)] r 1(2)
  have 2: "queue_inv m2 qa" "queue_strings m2 qa = rev ?xs" by simp_all
  have l: "length bufs = length (rev ?xs)" using len by simp
  have b: "\<forall>(b, n) \<in> set bufs. \<forall>x \<in> set (rev ?xs). length x < unat n"
    using big by fastforce
  from remove_all_strings [OF 2 l b] obtain m3
    where out: "remove_all (Some qa) bufs m2 = Some (rev ?xs, m3)" by blast
  have "map (\<lambda>(ea, sa, s). c_str s) items = map (\<lambda>(ea, sa, s). s) items"
    if "\<forall>(ea, sa, s) \<in> set items. NUL \<notin> set s"
    using that by (auto simp: c_str_id)
  then have id: "(\<forall>(ea, sa, s) \<in> set items. NUL \<notin> set s) \<longrightarrow>
      remove_all (Some qa) bufs m2 = Some (rev (map (\<lambda>(ea, sa, s). s) items), m3)"
    using out by simp
  note n = dlist_nodes [OF d]
  show ?thesis
    by (intro exI conjI) (rule r q n me mq out id)+
qed

theorem reverse_then_remove_all_witness:
  "\<exists>m1. queue_new (Some (0, ex_qjunk)) mem0 = Some (Some 0, ex_m0) \<and>
     tail_inserts (Some 0) ex_items ex_m0 = Some m1 \<and>
     length ex_bufs = length ex_items \<and>
     (\<exists>m2 m3. queue_reverse (Some 0) m1 = Some m2 \<and>
        remove_all (Some 0) ex_bufs m2 = Some ([''c'', ''b'', ''a''], m3))"
proof -
  have "\<exists>m1. tail_inserts (Some 0) ex_items ex_m0 = Some m1"
    by (simp add: ex_items_def ex_defs run_defs)
  then obtain m1 where build: "tail_inserts (Some 0) ex_items ex_m0 = Some m1" ..
  have len: "length ex_bufs = length ex_items" by (simp add: ex_bufs_def ex_items_def)
  have big: "\<forall>(b, n) \<in> set ex_bufs. \<forall>(ea, sa, s) \<in> set ex_items. strlen s < unat n"
    by (simp add: ex_bufs_def ex_items_def strlen_def c_str_def)
  have nn: "\<forall>(ea, sa, s) \<in> set ex_items. NUL \<notin> set s" by (simp add: ex_items_def)
  have out: "rev (map (\<lambda>(ea, sa, s). s) ex_items) = [''c'', ''b'', ''a'']"
    by (simp add: ex_items_def)
  from reverse_then_remove_all [OF ex_new build len big] nn obtain m2 m3
    where "queue_reverse (Some 0) m1 = Some m2"
      "remove_all (Some 0) ex_bufs m2 = Some (rev (map (\<lambda>(ea, sa, s). s) ex_items), m3)"
    by blast
  then show ?thesis using ex_new build len unfolding out by blast
qed

text \<open>
  C8. On any queue satisfying the invariant, \<^verbatim>\<open>queue_reverse\<close> returns, a second
  \<^verbatim>\<open>queue_reverse\<close> returns as well, and after it the nodes and the strings from head to
  tail are what they were at the start; indeed the whole memory is.
\<close>

theorem reverse_twice_restores:
  assumes inv: "queue_inv m qa"
  shows "\<exists>m1 m2. queue_reverse (Some qa) m = Some m1 \<and> queue_reverse (Some qa) m1 = Some m2 \<and>
           queue_strings m1 qa = rev (queue_strings m qa) \<and>
           queue_nodes m2 qa = queue_nodes m qa \<and>
           queue_strings m2 qa = queue_strings m qa \<and> m2 = m"
proof -
  from inv obtain ps where d: "dlist m qa ps" unfolding queue_inv_dlist ..
  from reverse_effect [OF d] obtain m1 qs where r1: "queue_reverse (Some qa) m = Some m1"
    and q: "queues m qa = Some qs"
    and mq1: "queues m1 = (queues m)(qa \<mapsto> qs\<lparr>q_tail := q_head qs, q_head := q_tail qs\<rparr>)"
    and me1: "eles m1 = swap_all ps (eles m)" and ms1: "strs m1 = strs m"
    by blast
  from reverse_dlist [OF d] r1 have d1: "dlist m1 qa (rev ps)" by auto
  from reverse_effect [OF d1] mq1 obtain m2 where r2: "queue_reverse (Some qa) m1 = Some m2"
    and mq2: "queues m2 = (queues m1)(qa \<mapsto> (qs\<lparr>q_tail := q_head qs, q_head := q_tail qs\<rparr>)
        \<lparr>q_tail := q_tail qs, q_head := q_head qs\<rparr>)"
    and me2: "eles m2 = swap_all (rev ps) (eles m1)" and ms2: "strs m2 = strs m1"
    by auto
  have "queues m2 = queues m" using mq2 mq1 q by (auto simp: fun_eq_iff)
  moreover have "eles m2 = eles m" using me2 me1 by (simp add: swap_all_twice)
  moreover have "strs m2 = strs m" using ms2 ms1 by simp
  ultimately have "m2 = m" by (intro mem.equality) simp_all
  from reverse_strings [OF inv] r1
  have "queue_strings m1 qa = rev (queue_strings m qa)" by simp
  then show ?thesis using r1 r2 \<open>m2 = m\<close> by simp
qed

theorem reverse_twice_restores_witness:
  "queue_inv ex_mem2 0 \<and>
   (\<exists>m1 m2. queue_reverse (Some 0) ex_mem2 = Some m1 \<and> queue_reverse (Some 0) m1 = Some m2 \<and>
      queue_strings m1 0 = rev (queue_strings ex_mem2 0) \<and>
      queue_nodes m2 0 = queue_nodes ex_mem2 0 \<and>
      queue_strings m2 0 = queue_strings ex_mem2 0 \<and> m2 = ex_mem2)"
  using reverse_twice_restores [OF ex_mem2_inv] ex_mem2_inv by blast



text \<open>
  C10. Whenever \<^verbatim>\<open>queue_reverse\<close> returns, in whatever memory: no string block has
  changed, been allocated or released; the same nodes are allocated as before and each
  has its \<^verbatim>\<open>value\<close> pointer unchanged; the same queues are allocated and each has its
  count unchanged; queues other than the one reversed are untouched. And it does
  return for a handle that is \<^verbatim>\<open>NULL\<close> or points to a queue satisfying the invariant.
\<close>

theorem reverse_frame:
  "(queue_reverse q m = Some m' \<longrightarrow>
      strs m' = strs m \<and>
      (\<forall>a. (eles m' a = None) = (eles m a = None)) \<and>
      (\<forall>a. map_option e_value (eles m' a) = map_option e_value (eles m a)) \<and>
      (\<forall>a. (queues m' a = None) = (queues m a = None)) \<and>
      (\<forall>a. map_option q_size (queues m' a) = map_option q_size (queues m a)) \<and>
      (\<forall>a. Some a \<noteq> q \<longrightarrow> queues m' a = queues m a)) \<and>
   (handle_ok m q \<longrightarrow> queue_reverse q m \<noteq> None)"
proof (intro conjI impI)
  assume r: "queue_reverse q m = Some m'"
  have "relinked m m' \<and>
      (\<forall>a. (queues m' a = None) = (queues m a = None)) \<and>
      (\<forall>a. map_option q_size (queues m' a) = map_option q_size (queues m a)) \<and>
      (\<forall>a. Some a \<noteq> q \<longrightarrow> queues m' a = queues m a)"
  proof (cases q)
    case None
    with r show ?thesis by (simp add: queue_reverse_def relinked_refl)
  next
    case (Some qa)
    from r have r': "queue_reverse (Some qa) m = Some m'" by (simp add: Some)
    show ?thesis
    proof (rule queue_reverse_cases [OF r'], goal_cases)
      case 1
      then show ?thesis by (simp add: relinked_refl)
    next
      case (2 qs m1 qs1 r)
      note l = 2(2) and q1 = 2(3) and sz = 2(4) and mq = 2(5)
        and me = 2(6) and ms = 2(7)
      from reverse_loop_frame [OF l] have f: "queues m1 = queues m" "relinked m m1" by simp_all
      have "relinked m m'" using f(2) me ms by (simp add: relinked_def)
      moreover have "\<forall>a. (queues m' a = None) = (queues m a = None)"
        using mq q1 f(1) by auto
      moreover have "\<forall>a. map_option q_size (queues m' a) = map_option q_size (queues m a)"
        using mq q1 f(1) sz by auto
      moreover have "\<forall>a. Some a \<noteq> q \<longrightarrow> queues m' a = queues m a"
        using mq f(1) Some by auto
      ultimately show ?thesis by blast
    qed
  qed
  then show "strs m' = strs m"
    and "\<forall>a. (eles m' a = None) = (eles m a = None)"
    and "\<forall>a. map_option e_value (eles m' a) = map_option e_value (eles m a)"
    and "\<forall>a. (queues m' a = None) = (queues m a = None)"
    and "\<forall>a. map_option q_size (queues m' a) = map_option q_size (queues m a)"
    and "\<forall>a. Some a \<noteq> q \<longrightarrow> queues m' a = queues m a"
    unfolding relinked_def by blast+
next
  assume "handle_ok m q"
  then show "queue_reverse q m \<noteq> None"
    using reverse_inv by (cases q) (auto simp: handle_ok_def queue_reverse_def)
qed

theorem reverse_frame_witness:
  "\<exists>m'. queue_reverse (Some 0) ex_mem2 = Some m' \<and> handle_ok ex_mem2 (Some 0) \<and>
      strs m' = strs ex_mem2 \<and>
      (\<forall>a. (eles m' a = None) = (eles ex_mem2 a = None)) \<and>
      (\<forall>a. map_option e_value (eles m' a) = map_option e_value (eles ex_mem2 a)) \<and>
      (\<forall>a. (queues m' a = None) = (queues ex_mem2 a = None)) \<and>
      (\<forall>a. map_option q_size (queues m' a) = map_option q_size (queues ex_mem2 a)) \<and>
      queue_reverse (Some 0) ex_mem2 \<noteq> None"
proof -
  have h: "handle_ok ex_mem2 (Some 0)" using ex_mem2_inv by (simp add: handle_ok_def)
  from reverse_inv [OF ex_mem2_inv] obtain m' where r: "queue_reverse (Some 0) ex_mem2 = Some m'"
    by blast
  from reverse_frame [of "Some 0" ex_mem2 m'] r h show ?thesis by blast
qed

end
